theory Spec2Isabelle
  imports Complex_Main "HOL-Library.Sublist"
begin

section \<open>Values of the source language\<close>

text \<open>
  The source is TypeScript. A string is a sequence of UTF-16 code units; a code unit is
  modelled as a natural number (every function below only compares code units with
  constants, so the bound \<open>< 65536\<close> plays no role). A \<open>number\<close> is modelled as an exact
  rational: the layout only adds, subtracts, halves and scales by decimal constants, and
  the properties below are about which expression a coordinate is, not about rounding.
\<close>

type_synonym jsstring = "nat list"
type_synonym number = rat

text \<open>The id literal \<^verbatim>\<open>'root'\<close> and the prefix \<^verbatim>\<open>'node-'\<close>.\<close>

definition root_id :: jsstring where
  "root_id = [114, 111, 111, 116]"

definition node_prefix :: jsstring where
  "node_prefix = [110, 111, 100, 101, 45]"

section \<open>Edge path generator (layout.ts, generateLinkPath)\<close>

record NodePosition =
  p_id :: jsstring
  p_text :: jsstring
  p_x :: number
  p_y :: number
  p_width :: number
  p_height :: number
  p_level :: int
  p_hasChildren :: bool
  p_expanded :: bool
  p_parentId :: "jsstring option"

text \<open>
  The function returns the template string
  \<^verbatim>\<open>M fromX fromY C cp1x cp1y, cp2x cp2y, toX toY\<close>; the model returns the eight
  numbers that are printed into it, in that order.
\<close>

record LinkPath =
  l_fromX :: number
  l_fromY :: number
  l_cp1x :: number
  l_cp1y :: number
  l_cp2x :: number
  l_cp2y :: number
  l_toX :: number
  l_toY :: number

definition generateLinkPath :: "NodePosition \<Rightarrow> NodePosition \<Rightarrow> LinkPath" where
  "generateLinkPath fromP toP =
     (let isLeftBranch = (p_x toP < p_x fromP);
          isFromRoot = (p_id fromP = root_id);
          fromX = (if isLeftBranch then p_x fromP - p_width fromP / 2
                   else p_x fromP + p_width fromP / 2);
          fromY = (if isFromRoot then p_y fromP else p_y fromP + p_height fromP / 2);
          toX = (if isLeftBranch then p_x toP + p_width toP / 2
                 else p_x toP - p_width toP / 2);
          toY = p_y toP + p_height toP / 2;
          dx = \<bar>toX - fromX\<bar>;
          controlOffset = dx * (1 / 2);
          cp1x = (if isLeftBranch then fromX - controlOffset else fromX + controlOffset);
          cp1y = fromY;
          cp2x = (if isLeftBranch then toX + controlOffset else toX - controlOffset);
          cp2y = toY
      in \<lparr> l_fromX = fromX, l_fromY = fromY, l_cp1x = cp1x, l_cp1y = cp1y,
           l_cp2x = cp2x, l_cp2y = cp2y, l_toX = toX, l_toY = toY \<rparr>)"

text \<open>The classification of an edge, as the first line of the function computes it.\<close>

definition isLeftBranch :: "NodePosition \<Rightarrow> NodePosition \<Rightarrow> bool" where
  "isLeftBranch fromP toP = (p_x toP < p_x fromP)"

text \<open>
  The box of a position, as calculateLayoutBounds reads it: the box spans
  \<open>x - width / 2 .. x + width / 2\<close> and \<open>y - height / 2 .. y + height / 2\<close>, so
  \<open>(x, y)\<close> is its centre.
\<close>

definition boxMinX :: "NodePosition \<Rightarrow> number" where
  "boxMinX p = p_x p - p_width p / 2"

definition boxMaxX :: "NodePosition \<Rightarrow> number" where
  "boxMaxX p = p_x p + p_width p / 2"




section \<open>The tree (markdownParser.ts, INodeData)\<close>

text \<open>
  \<open>expanded\<close> is an optional field: \<open>None\<close> is \<^verbatim>\<open>undefined\<close>, which every test in
  the source (\<^verbatim>\<open>!parent.expanded\<close>, \<^verbatim>\<open>child.expanded && ...\<close>,
  \<^verbatim>\<open>root.expanded || false\<close>) treats as false.
\<close>

datatype INodeData =
  INodeData (n_id: jsstring) (n_text: jsstring) (n_level: int)
            (n_children: "INodeData list") (n_expanded: "bool option")

definition truthy :: "bool option \<Rightarrow> bool" where
  "truthy e = (e = Some True)"

fun getAllNodes :: "INodeData \<Rightarrow> INodeData list" where
  "getAllNodes (INodeData i t l cs e) = INodeData i t l cs e # concat (map getAllNodes cs)"

fun getVisibleNodes :: "INodeData \<Rightarrow> INodeData list" where
  "getVisibleNodes (INodeData i t l cs e) =
     INodeData i t l cs e # (if truthy e then concat (map getVisibleNodes cs) else [])"

section \<open>Dimension estimator (layout.ts, getFontConfig and calculateNodeDimensions)\<close>

record FontConfig =
  chineseWidth :: number
  englishWidth :: number
  padding :: number
  baseHeight :: number

definition getFontConfig :: "int \<Rightarrow> FontConfig" where
  "getFontConfig level =
     (if level = 0 then \<lparr> chineseWidth = 22, englishWidth = 12, padding = 56, baseHeight = 52 \<rparr>
      else if level = 1 then \<lparr> chineseWidth = 18, englishWidth = 10, padding = 28, baseHeight = 36 \<rparr>
      else if level = 2 then \<lparr> chineseWidth = 16, englishWidth = 9, padding = 24, baseHeight = 32 \<rparr>
      else if level = 3 then \<lparr> chineseWidth = 14, englishWidth = 8, padding = 20, baseHeight = 30 \<rparr>
      else \<lparr> chineseWidth = 13, englishWidth = 7, padding = 20, baseHeight = 28 \<rparr>)"

text \<open>
  The character class of the width loop: U+4E00..U+9FA5, U+3000..U+303F and
  U+FF00..U+FFEF, tested on one character of the \<^verbatim>\<open>for ... of\<close> iteration. That
  iteration walks code points: a high surrogate followed by a low surrogate is one
  character, whose two code units are both outside the class.
\<close>

definition isChinese :: "nat \<Rightarrow> bool" where
  "isChinese c = ((0x4e00 \<le> c \<and> c \<le> 0x9fa5) \<or> (0x3000 \<le> c \<and> c \<le> 0x303f)
                  \<or> (0xff00 \<le> c \<and> c \<le> 0xffef))"

definition isHighSurrogate :: "nat \<Rightarrow> bool" where
  "isHighSurrogate c = (0xd800 \<le> c \<and> c \<le> 0xdbff)"

definition isLowSurrogate :: "nat \<Rightarrow> bool" where
  "isLowSurrogate c = (0xdc00 \<le> c \<and> c \<le> 0xdfff)"

fun sumCharWidths :: "FontConfig \<Rightarrow> number \<Rightarrow> jsstring \<Rightarrow> number" where
  "sumCharWidths fc w [] = w"
| "sumCharWidths fc w [c] =
     (if isChinese c then w + chineseWidth fc else w + englishWidth fc)"
| "sumCharWidths fc w (c # d # cs) =
     (if isHighSurrogate c \<and> isLowSurrogate d then sumCharWidths fc (w + englishWidth fc) cs
      else if isChinese c then sumCharWidths fc (w + chineseWidth fc) (d # cs)
      else sumCharWidths fc (w + englishWidth fc) (d # cs))"

definition estimatedWidth :: "INodeData \<Rightarrow> number" where
  "estimatedWidth node =
     (let fontConfig = getFontConfig (n_level node)
      in max 60 (sumCharWidths fontConfig 0 (n_text node) + padding fontConfig))"

definition extraHeight :: "number \<Rightarrow> number" where
  "extraHeight w =
     (if w > 180 then
        (if w \<le> 350 then of_int \<lfloor>(w - 180) / 12\<rfloor>
         else 14 + of_int \<lfloor>(w - 350) / 10\<rfloor>)
      else 0)"

definition estimatedHeight :: "INodeData \<Rightarrow> number" where
  "estimatedHeight node =
     (let fontConfig = getFontConfig (n_level node);
          isRoot = (n_id node = root_id)
      in if isRoot then baseHeight fontConfig
         else baseHeight fontConfig + extraHeight (estimatedWidth node))"

record Dimension =
  d_width :: number
  d_height :: number

text \<open>The loop of calculateNodeDimensions: one \<^verbatim>\<open>dimensions.set\<close> per node, in order.\<close>

fun setDimensions ::
  "(jsstring \<rightharpoonup> Dimension) \<Rightarrow> INodeData list \<Rightarrow> (jsstring \<rightharpoonup> Dimension)" where
  "setDimensions dimensions [] = dimensions"
| "setDimensions dimensions (node # nodes) =
     setDimensions
       (dimensions(n_id node \<mapsto> \<lparr> d_width = estimatedWidth node, d_height = estimatedHeight node \<rparr>))
       nodes"

definition calculateNodeDimensions :: "INodeData list \<Rightarrow> (jsstring \<rightharpoonup> Dimension)" where
  "calculateNodeDimensions nodes = setDimensions Map.empty nodes"

section \<open>Layout engine (layout.ts)\<close>

text \<open>
  \<^verbatim>\<open>dimensions.get(id)!\<close> is \<^verbatim>\<open>undefined\<close> for an id that was never set, and reading
  \<^verbatim>\<open>.width\<close> or \<^verbatim>\<open>.height\<close> of it throws a TypeError: the result \<open>None\<close> of the
  functions below. The map of positions is mutated in place by the source and passed
  through here.
\<close>

type_synonym dimensions = "jsstring \<rightharpoonup> Dimension"
type_synonym positions = "jsstring \<rightharpoonup> NodePosition"

datatype Direction = DirLeft | DirRight | DirBoth

function calculateSubtreeHeight :: "INodeData list \<Rightarrow> dimensions \<Rightarrow> number \<Rightarrow> number option"
  and sumBranchHeights :: "INodeData list \<Rightarrow> dimensions \<Rightarrow> number \<Rightarrow> number \<Rightarrow> number option"
  and calculateNodeBranchHeight :: "INodeData \<Rightarrow> dimensions \<Rightarrow> number \<Rightarrow> number option"
where
  "calculateSubtreeHeight nodes dimensions verticalSpacing =
     (if length nodes = 0 then Some 0
      else (case sumBranchHeights nodes dimensions verticalSpacing 0 of
              None \<Rightarrow> None
            | Some totalHeight \<Rightarrow>
                Some (totalHeight + (of_nat (length nodes) - 1) * verticalSpacing)))"
| "sumBranchHeights [] dimensions verticalSpacing totalHeight = Some totalHeight"
| "sumBranchHeights (node # nodes) dimensions verticalSpacing totalHeight =
     (case calculateNodeBranchHeight node dimensions verticalSpacing of
        None \<Rightarrow> None
      | Some h \<Rightarrow> sumBranchHeights nodes dimensions verticalSpacing (totalHeight + h))"
| "calculateNodeBranchHeight (INodeData i t l cs e) dimensions verticalSpacing =
     (case dimensions i of
        None \<Rightarrow> None
      | Some nodeDim \<Rightarrow>
          (let nodeHeight = d_height nodeDim;
               minBranchHeight = max nodeHeight 32
           in if truthy e \<and> length cs > 0 then
                (case calculateSubtreeHeight cs dimensions verticalSpacing of
                   None \<Rightarrow> None
                 | Some childrenTotalHeight \<Rightarrow> Some (max minBranchHeight childrenTotalHeight))
              else Some minBranchHeight))"
  by pat_completeness auto
termination
  by (relation "measure (\<lambda>x. case x of
          Inl (nodes, _) \<Rightarrow> 2 * size_list size nodes + 1
        | Inr (Inl (nodes, _)) \<Rightarrow> 2 * size_list size nodes
        | Inr (Inr (node, _)) \<Rightarrow> 2 * size node)") auto

text \<open>
  layoutChildBranch and its loop over \<^verbatim>\<open>parent.children\<close>. The parent is taken apart
  into its id \<open>i\<close>, label, level \<open>l\<close>, children \<open>cs\<close> and flag \<open>e\<close>. The loop carries the
  map of positions and \<open>yOffset\<close>; \<open>parentId\<close>, \<open>anchorX\<close> and \<open>sign\<close> are its constants.
\<close>

function layoutChildBranch ::
    "INodeData \<Rightarrow> positions \<Rightarrow> dimensions \<Rightarrow> number \<Rightarrow> number \<Rightarrow> Direction
     \<Rightarrow> number \<Rightarrow> number \<Rightarrow> positions option"
  and layoutChildren ::
    "INodeData list \<Rightarrow> jsstring \<Rightarrow> positions \<Rightarrow> dimensions \<Rightarrow> number \<Rightarrow> number \<Rightarrow> number
     \<Rightarrow> Direction \<Rightarrow> number \<Rightarrow> number \<Rightarrow> positions option"
where
  "layoutChildBranch (INodeData i t l cs e) positions dimensions currentX currentY direction
       horizontalSpacing verticalSpacing =
     (if \<not> truthy e \<or> length cs = 0 then Some positions
      else
        (let sign = (if direction = DirLeft then - 1 else 1)
         in case dimensions i of
              None \<Rightarrow> None
            | Some parentDim \<Rightarrow>
                (let spacingMultiplier = (if l \<ge> 2 then 1 else 8 / 10);
                     hGap = horizontalSpacing * spacingMultiplier * (6 / 10);
                     anchorX = currentX + sign * (d_width parentDim / 2 + hGap)
                 in case calculateSubtreeHeight cs dimensions verticalSpacing of
                      None \<Rightarrow> None
                    | Some totalSubtreeHeight \<Rightarrow>
                        (let yOffset = currentY - totalSubtreeHeight / 2
                         in layoutChildren cs i positions
                              dimensions anchorX sign yOffset direction
                              horizontalSpacing verticalSpacing))))"
| "layoutChildren [] parentId positions dimensions anchorX sign yOffset direction
       horizontalSpacing verticalSpacing = Some positions"
| "layoutChildren (child # rest) parentId positions dimensions anchorX sign yOffset direction
       horizontalSpacing verticalSpacing =
     (case dimensions (n_id child) of
        None \<Rightarrow> None
      | Some childDim \<Rightarrow>
          (case calculateNodeBranchHeight child dimensions verticalSpacing of
             None \<Rightarrow> None
           | Some branchHeight \<Rightarrow>
               (let y = yOffset + branchHeight / 2;
                    x = anchorX + sign * (d_width childDim / 2);
                    positions1 = positions(n_id child \<mapsto>
                      \<lparr> p_id = n_id child, p_text = n_text child, p_x = x, p_y = y,
                        p_width = d_width childDim, p_height = d_height childDim,
                        p_level = n_level child,
                        p_hasChildren = (length (n_children child) > 0),
                        p_expanded = truthy (n_expanded child),
                        p_parentId = Some parentId \<rparr>)
                in case (if truthy (n_expanded child) \<and> length (n_children child) > 0
                         then layoutChildBranch child positions1 dimensions x y direction
                                horizontalSpacing verticalSpacing
                         else Some positions1) of
                     None \<Rightarrow> None
                   | Some positions2 \<Rightarrow>
                       layoutChildren rest parentId positions2 dimensions anchorX sign
                         (yOffset + branchHeight + verticalSpacing) direction
                         horizontalSpacing verticalSpacing)))"
  by pat_completeness auto
termination
  by (relation "measure (\<lambda>x. case x of
          Inl (parent, _) \<Rightarrow> 2 * size parent
        | Inr (nodes, _) \<Rightarrow> 2 * size_list size nodes + 1)") auto

text \<open>
  The options after the destructuring of calculateLayout. In the argument every field may
  be missing; \<open>nodeWidth\<close>, \<open>nodeHeight\<close> and \<open>levelSpacingMultiplier\<close> are read and never
  used.
\<close>

record LayoutOptions =
  o_direction :: "Direction option"
  o_horizontalSpacing :: "number option"
  o_verticalSpacing :: "number option"
  o_nodeWidth :: "number option"
  o_nodeHeight :: "number option"
  o_centerOffset :: "number option"
  o_levelSpacingMultiplier :: "number option"

definition orDefault :: "'a option \<Rightarrow> 'a \<Rightarrow> 'a" where
  "orDefault v d = (case v of None \<Rightarrow> d | Some x \<Rightarrow> x)"

text \<open>
  calculateBothDirectionLayout. Its two loops over the left and the right children of the
  root have the body of the loop of layoutChildBranch: the left one with the anchor
  \<open>leftAnchorX\<close>, \<open>x = leftAnchorX - childDim.width / 2\<close> and the direction \<^verbatim>\<open>'left'\<close>, the
  right one with \<open>rightAnchorX\<close>, \<open>x = rightAnchorX + childDim.width / 2\<close> and \<^verbatim>\<open>'right'\<close>.
\<close>

definition calculateBothDirectionLayout ::
    "INodeData \<Rightarrow> positions \<Rightarrow> dimensions \<Rightarrow> number \<Rightarrow> number \<Rightarrow> number \<Rightarrow> positions option" where
  "calculateBothDirectionLayout rootNode positions dimensions horizontalSpacing verticalSpacing
       centerOffset =
     (case dimensions (n_id rootNode) of
        None \<Rightarrow> None
      | Some rootDim \<Rightarrow>
          (let positions1 = positions(n_id rootNode \<mapsto>
                 \<lparr> p_id = n_id rootNode, p_text = n_text rootNode, p_x = centerOffset, p_y = 0,
                   p_width = d_width rootDim, p_height = d_height rootDim,
                   p_level = n_level rootNode,
                   p_hasChildren = (length (n_children rootNode) > 0),
                   p_expanded = truthy (n_expanded rootNode), p_parentId = None \<rparr>)
           in if length (n_children rootNode) = 0 then Some positions1
              else
                (let children = n_children rootNode;
                     leftCount = (length children + 1) div 2;
                     leftChildren = take leftCount children;
                     rightChildren = drop leftCount children
                 in case (if length leftChildren > 0 then
                            (case calculateSubtreeHeight leftChildren dimensions verticalSpacing of
                               None \<Rightarrow> None
                             | Some leftHeight \<Rightarrow>
                                 (let yOffset = - leftHeight / 2;
                                      leftAnchorX = centerOffset - d_width rootDim / 2
                                                    - horizontalSpacing * (1 / 2)
                                  in layoutChildren leftChildren (n_id rootNode) positions1 dimensions
                                       leftAnchorX (- 1) yOffset DirLeft
                                       horizontalSpacing verticalSpacing))
                          else Some positions1) of
                      None \<Rightarrow> None
                    | Some positions2 \<Rightarrow>
                        (if length rightChildren > 0 then
                           (case calculateSubtreeHeight rightChildren dimensions verticalSpacing of
                              None \<Rightarrow> None
                            | Some rightHeight \<Rightarrow>
                                (let yOffset = - rightHeight / 2;
                                     rightAnchorX = centerOffset + d_width rootDim / 2
                                                    + horizontalSpacing * (1 / 2)
                                 in layoutChildren rightChildren (n_id rootNode) positions2 dimensions
                                      rightAnchorX 1 yOffset DirRight
                                      horizontalSpacing verticalSpacing))
                         else Some positions2))))"

definition calculateSingleDirectionLayout ::
    "INodeData \<Rightarrow> positions \<Rightarrow> dimensions \<Rightarrow> number \<Rightarrow> number \<Rightarrow> Direction \<Rightarrow> positions option" where
  "calculateSingleDirectionLayout rootNode positions dimensions horizontalSpacing verticalSpacing
       direction =
     (case dimensions (n_id rootNode) of
        None \<Rightarrow> None
      | Some rootDim \<Rightarrow>
          (let positions1 = positions(n_id rootNode \<mapsto>
                 \<lparr> p_id = n_id rootNode, p_text = n_text rootNode, p_x = 0, p_y = 0,
                   p_width = d_width rootDim, p_height = d_height rootDim,
                   p_level = n_level rootNode,
                   p_hasChildren = (length (n_children rootNode) > 0),
                   p_expanded = truthy (n_expanded rootNode), p_parentId = None \<rparr>)
           in layoutChildBranch rootNode positions1 dimensions 0 0 direction
                horizontalSpacing verticalSpacing))"

definition calculateLayout :: "INodeData \<Rightarrow> LayoutOptions \<Rightarrow> positions option" where
  "calculateLayout rootNode options =
     (let direction = orDefault (o_direction options) DirBoth;
          horizontalSpacing = orDefault (o_horizontalSpacing options) 140;
          verticalSpacing = orDefault (o_verticalSpacing options) 16;
          centerOffset = orDefault (o_centerOffset options) 0;
          positions = Map.empty;
          allNodes = getAllNodes rootNode;
          nodeDimensions = calculateNodeDimensions allNodes
      in if direction = DirBoth
         then calculateBothDirectionLayout rootNode positions nodeDimensions
                horizontalSpacing verticalSpacing centerOffset
         else calculateSingleDirectionLayout rootNode positions nodeDimensions
                horizontalSpacing verticalSpacing direction)"

text \<open>The ids of all nodes, and of the visible nodes, of a list of subtrees.\<close>

definition allIds :: "INodeData list \<Rightarrow> jsstring set" where
  "allIds nodes = n_id ` set (concat (map getAllNodes nodes))"

definition visibleIds :: "INodeData list \<Rightarrow> jsstring set" where
  "visibleIds nodes = n_id ` set (concat (map getVisibleNodes nodes))"

text \<open>The ids of the visible nodes below a node: none when the node is collapsed.\<close>

definition visibleBelow :: "INodeData \<Rightarrow> jsstring set" where
  "visibleBelow node = (if truthy (n_expanded node) then visibleIds (n_children node) else {})"

section \<open>Notions used to state the layout's properties\<close>

text \<open>
  The object that both layout functions store for the root, at \<open>(x, 0)\<close>.
\<close>

definition rootPosition :: "INodeData \<Rightarrow> Dimension \<Rightarrow> number \<Rightarrow> NodePosition" where
  "rootPosition rootNode rootDim x =
     \<lparr> p_id = n_id rootNode, p_text = n_text rootNode, p_x = x, p_y = 0,
       p_width = d_width rootDim, p_height = d_height rootDim,
       p_level = n_level rootNode,
       p_hasChildren = (length (n_children rootNode) > 0),
       p_expanded = truthy (n_expanded rootNode), p_parentId = None \<rparr>"

text \<open>No two nodes of the subtrees have the same id.\<close>

definition distinctIds :: "INodeData list \<Rightarrow> bool" where
  "distinctIds nodes = distinct (map n_id (concat (map getAllNodes nodes)))"

text \<open>Every entry of a map of positions is stored under its own id.\<close>

definition keyed :: "positions \<Rightarrow> bool" where
  "keyed positions = (\<forall>k q. positions k = Some q \<longrightarrow> p_id q = k)"

text \<open>
  The pairs (parent, child) that layoutChildBranch places when called on a node: the
  children of the node when it is expanded, and the pairs of each child in turn.
\<close>

fun branchEdges :: "INodeData \<Rightarrow> (INodeData \<times> INodeData) list" where
  "branchEdges (INodeData i t l cs e) =
     (if truthy e then concat (map (\<lambda>c. (INodeData i t l cs e, c) # branchEdges c) cs)
      else [])"

text \<open>
  The anchor line of the claim for a parent at position \<open>pp\<close>:
  \<open>parentX \<plusminus> (parentWidth / 2 + horizontalSpacing \<times> m \<times> 0.6)\<close> with \<open>m = 1.0\<close> when the
  parent's depth is at least 2 and \<open>0.8\<close> otherwise; minus on the left side. It is written
  as the source writes \<open>anchorX\<close>, with the sign as a factor.
\<close>

definition anchorLine :: "Direction \<Rightarrow> number \<Rightarrow> INodeData \<Rightarrow> NodePosition \<Rightarrow> number" where
  "anchorLine side horizontalSpacing parent pp =
     (let sign = (if side = DirLeft then - 1 else 1);
          spacingMultiplier = (if n_level parent \<ge> 2 then 1 else 8 / 10);
          hGap = horizontalSpacing * spacingMultiplier * (6 / 10)
      in p_x pp + sign * (p_width pp / 2 + hGap))"

text \<open>
  The near edge of a child is its right edge on the left side and its left edge on the
  right side.
\<close>

definition nearEdge :: "Direction \<Rightarrow> NodePosition \<Rightarrow> number" where
  "nearEdge side pc = (if side = DirLeft then boxMaxX pc else boxMinX pc)"

text \<open>
  How the source aligns a child to a line, in its own expression for \<open>x\<close>: a child on the
  left side is right-aligned, stored at \<open>x = line - width / 2\<close>; a child on the right side
  is left-aligned, stored at \<open>x = line + width / 2\<close>.
\<close>

definition alignedTo :: "Direction \<Rightarrow> number \<Rightarrow> NodePosition \<Rightarrow> bool" where
  "alignedTo side line pc =
     (let sign = (if side = DirLeft then - 1 else 1)
      in p_x pc = line + sign * (p_width pc / 2))"

text \<open>
  In a map of positions, the child of the pair is aligned to the anchor line of the
  parent of the pair; both have a position.
\<close>

definition anchored :: "Direction \<Rightarrow> number \<Rightarrow> positions \<Rightarrow> INodeData \<times> INodeData \<Rightarrow> bool" where
  "anchored side horizontalSpacing positions edge =
     (case positions (n_id (fst edge)) of
        None \<Rightarrow> False
      | Some pp \<Rightarrow>
          (case positions (n_id (snd edge)) of
             None \<Rightarrow> False
           | Some pc \<Rightarrow> alignedTo side (anchorLine side horizontalSpacing (fst edge) pp) pc))"

text \<open>
  The anchor lines of the root in the both-direction mode, half a spacing off its edges:
  \<open>rootX - rootWidth / 2 - horizontalSpacing \<times> 0.5\<close> on the left and
  \<open>rootX + rootWidth / 2 + horizontalSpacing \<times> 0.5\<close> on the right.
\<close>

definition rootAnchorLine :: "Direction \<Rightarrow> number \<Rightarrow> NodePosition \<Rightarrow> number" where
  "rootAnchorLine side horizontalSpacing pp =
     (if side = DirLeft then p_x pp - p_width pp / 2 - horizontalSpacing * (1 / 2)
      else p_x pp + p_width pp / 2 + horizontalSpacing * (1 / 2))"

definition anchoredToRoot ::
    "Direction \<Rightarrow> number \<Rightarrow> positions \<Rightarrow> INodeData \<times> INodeData \<Rightarrow> bool" where
  "anchoredToRoot side horizontalSpacing positions edge =
     (case positions (n_id (fst edge)) of
        None \<Rightarrow> False
      | Some pp \<Rightarrow>
          (case positions (n_id (snd edge)) of
             None \<Rightarrow> False
           | Some pc \<Rightarrow> alignedTo side (rootAnchorLine side horizontalSpacing pp) pc))"

section \<open>Strings: the library calls the parser makes\<close>

text \<open>
  \<^verbatim>\<open>\s\<close> in a regular expression and \<^verbatim>\<open>trim()\<close> use the same set: the white space
  and line terminator code points of the language. \<^verbatim>\<open>.\<close> matches everything but the
  four line terminators.
\<close>

definition isWhitespace :: "nat \<Rightarrow> bool" where
  "isWhitespace c =
     (c = 9 \<or> c = 10 \<or> c = 11 \<or> c = 12 \<or> c = 13 \<or> c = 32 \<or> c = 0xa0 \<or> c = 0x1680
      \<or> (0x2000 \<le> c \<and> c \<le> 0x200a) \<or> c = 0x2028 \<or> c = 0x2029 \<or> c = 0x202f
      \<or> c = 0x205f \<or> c = 0x3000 \<or> c = 0xfeff)"

definition isLineTerminator :: "nat \<Rightarrow> bool" where
  "isLineTerminator c = (c = 10 \<or> c = 13 \<or> c = 0x2028 \<or> c = 0x2029)"

text \<open>\<^verbatim>\<open>s.split(sep)\<close> for a one-character separator; the empty string gives one empty line.\<close>

fun splitOn :: "nat \<Rightarrow> jsstring \<Rightarrow> jsstring list" where
  "splitOn sep [] = [[]]"
| "splitOn sep (c # cs) =
     (if c = sep then [] # splitOn sep cs
      else (case splitOn sep cs of
              [] \<Rightarrow> [[c]]
            | l # ls \<Rightarrow> (c # l) # ls))"

definition trim :: "jsstring \<Rightarrow> jsstring" where
  "trim s = rev (dropWhile isWhitespace (rev (dropWhile isWhitespace s)))"

definition startsWith :: "jsstring \<Rightarrow> nat \<Rightarrow> bool" where
  "startsWith s c = (case s of [] \<Rightarrow> False | d # _ \<Rightarrow> d = c)"

text \<open>
  \<^verbatim>\<open>s.match(/^(#{1,6})\s+(.*)$/)\<close>: one to six \<open>#\<close> (code 35), then white space, then
  the rest of the string, which must be free of line terminators. The result holds the
  two groups. A seventh \<open>#\<close> cannot be matched by \<^verbatim>\<open>\s\<close>, and giving white space back
  to the second group never removes a line terminator from it, so the greedy match is
  the only one.
\<close>

definition headingMatch :: "jsstring \<Rightarrow> (jsstring \<times> jsstring) option" where
  "headingMatch s =
     (let hashes = takeWhile (\<lambda>c. c = 35) s;
          afterHashes = dropWhile (\<lambda>c. c = 35) s;
          rest = dropWhile isWhitespace afterHashes
      in if 1 \<le> length hashes \<and> length hashes \<le> 6
            \<and> takeWhile isWhitespace afterHashes \<noteq> []
            \<and> list_all (\<lambda>c. \<not> isLineTerminator c) rest
         then Some (hashes, rest) else None)"

text \<open>\<^verbatim>\<open>s.match(/^[-*]\s+(.*)$/)\<close>: \<open>-\<close> is code 45 and \<open>*\<close> is code 42.\<close>

definition listMatch :: "jsstring \<Rightarrow> jsstring option" where
  "listMatch s =
     (case s of
        [] \<Rightarrow> None
      | c # cs \<Rightarrow>
          if (c = 45 \<or> c = 42) \<and> takeWhile isWhitespace cs \<noteq> []
             \<and> list_all (\<lambda>c. \<not> isLineTerminator c) (dropWhile isWhitespace cs)
          then Some (dropWhile isWhitespace cs) else None)"

text \<open>
  \<^verbatim>\<open>s.replace(/\s*-\s*$/, '')\<close>: when the last character of \<open>s\<close> that is not white space
  is a dash, the leftmost match starts at the white space before that dash and runs to
  the end; otherwise nothing matches. One dash is removed, not a run of dashes.
\<close>

definition removeTrailingDash :: "jsstring \<Rightarrow> jsstring" where
  "removeTrailingDash s =
     (case dropWhile isWhitespace (rev s) of
        [] \<Rightarrow> s
      | c # front \<Rightarrow> if c = 45 then rev (dropWhile isWhitespace front) else s)"

text \<open>The decimal digits of a counter, as the template literal prints it.\<close>

fun decimal :: "nat \<Rightarrow> jsstring" where
  "decimal n = (if n < 10 then [48 + n] else decimal (n div 10) @ [48 + n mod 10])"

section \<open>Outline parser (markdownParser.ts)\<close>

text \<open>
  The parser builds the tree by mutation: the stack holds references to nodes, and
  \<^verbatim>\<open>parentNode.children.push(newNode)\<close> changes a node that is already somebody's
  child. The model keeps the objects in a store, a list indexed by reference; the root
  is reference 0 and a new object gets the next free reference.
\<close>

record HeapNode =
  h_id :: jsstring
  h_text :: jsstring
  h_level :: nat
  h_children :: "nat list"
  h_expanded :: bool

type_synonym heap = "HeapNode list"
type_synonym stack = "(nat \<times> nat) list"

text \<open>The last element of the stack is its top. An entry is (node, minLevel).\<close>

function popStack :: "nat \<Rightarrow> stack \<Rightarrow> stack" where
  "popStack level stack =
     (if length stack > 1 \<and> snd (last stack) \<ge> level then popStack level (butlast stack)
      else stack)"
  by pat_completeness auto
termination
  by (relation "measure (\<lambda>(level, stack). length stack)") auto

text \<open>
  Reading \<^verbatim>\<open>stack[stack.length - 1].node\<close> on an empty stack throws a TypeError: the
  result \<open>None\<close>.
\<close>

definition processNode ::
  "jsstring \<Rightarrow> nat \<Rightarrow> heap \<times> stack \<Rightarrow> nat \<Rightarrow> (heap \<times> stack) option" where
  "processNode text level hs idCounter =
     (let heap = fst hs;
          stack1 = popStack level (snd hs)
      in if stack1 = [] then None
         else
           let parentNode = fst (last stack1);
               newNode = length heap;
               created = \<lparr> h_id = node_prefix @ decimal idCounter, h_text = text,
                           h_level = level, h_children = [], h_expanded = False \<rparr>;
               pushed = (heap ! parentNode)
                          \<lparr> h_children := h_children (heap ! parentNode) @ [newNode] \<rparr>
           in Some (heap[parentNode := pushed] @ [created], stack1 @ [(newNode, level)]))"

definition calculateIndentLevel :: "jsstring \<Rightarrow> nat" where
  "calculateIndentLevel line =
     (let leadingSpaces = takeWhile isWhitespace line;
          tabCount = length (filter (\<lambda>c. c = 9) leadingSpaces);
          spaceCount = length (filter (\<lambda>c. c \<noteq> 9) leadingSpaces);
          totalIndent = tabCount * 2 + spaceCount div 2
      in totalIndent)"

text \<open>The default label of the root, four code units (U+4E2D U+5FC3 U+4E3B U+9898).\<close>

definition defaultRootText :: jsstring where
  "defaultRootText = [0x4e2d, 0x5fc3, 0x4e3b, 0x9898]"

text \<open>
  The first loop of parseMarkdown: the label of the first heading line whose label is
  not empty; \<open>None\<close> when the loop ends without a \<^verbatim>\<open>break\<close>.
\<close>

fun findRootText :: "jsstring list \<Rightarrow> jsstring option" where
  "findRootText [] = None"
| "findRootText (line # lines) =
     (let trimmedLine = trim line
      in if trimmedLine = [] then findRootText lines
         else (case headingMatch trimmedLine of
                 Some (hashes, rest) \<Rightarrow>
                   (let text = removeTrailingDash (trim rest)
                    in if text \<noteq> [] then Some text else findRootText lines)
               | None \<Rightarrow> findRootText lines))"

record ParserState =
  heap :: heap
  stack :: stack
  nodeIdCounter :: nat
  currentBaseLevel :: nat
  isFirstHeading :: bool

text \<open>A call \<^verbatim>\<open>processNode(text, level, stack, nodeIdCounter++)\<close> inside the loop.\<close>

definition emitNode :: "ParserState \<Rightarrow> jsstring \<Rightarrow> nat \<Rightarrow> ParserState option" where
  "emitNode st text level =
     (case processNode text level (heap st, stack st) (nodeIdCounter st) of
        None \<Rightarrow> None
      | Some (heap1, stack1) \<Rightarrow>
          Some (st \<lparr> heap := heap1, stack := stack1, nodeIdCounter := nodeIdCounter st + 1 \<rparr>))"

text \<open>The body of the second loop of parseMarkdown, for one line.\<close>

definition parseLine :: "ParserState \<Rightarrow> jsstring \<Rightarrow> ParserState option" where
  "parseLine st line =
     (let trimmedLine = trim line
      in if trimmedLine = [] then Some st
         else (case headingMatch trimmedLine of
             Some (hashes, rest) \<Rightarrow>
               (let level = length hashes;
                    text = removeTrailingDash (trim rest)
                in if text \<noteq> [] then
                     (if isFirstHeading st
                      then Some (st \<lparr> currentBaseLevel := level, isFirstHeading := False \<rparr>)
                      else (case emitNode st text level of
                              None \<Rightarrow> None
                            | Some st1 \<Rightarrow> Some (st1 \<lparr> currentBaseLevel := level \<rparr>)))
                   else Some st)
           | None \<Rightarrow>
               (case listMatch trimmedLine of
                  Some rest \<Rightarrow>
                    (let text = trim rest;
                         indentLevel = calculateIndentLevel line
                     in if text \<noteq> [] then
                          (let actualLevel = currentBaseLevel st + indentLevel + 1
                           in emitNode st text actualLevel)
                        else Some st)
                | None \<Rightarrow>
                    if \<not> startsWith trimmedLine 35 \<and> \<not> startsWith trimmedLine 45
                       \<and> \<not> startsWith trimmedLine 42
                    then
                      (let indentLevel = calculateIndentLevel line
                       in if indentLevel > 0 \<and> trimmedLine \<noteq> [] then
                            (let actualLevel = currentBaseLevel st + indentLevel
                             in emitNode st trimmedLine actualLevel)
                          else Some st)
                    else Some st)))"

fun parseLines :: "ParserState \<Rightarrow> jsstring list \<Rightarrow> ParserState option" where
  "parseLines st [] = Some st"
| "parseLines st (line # lines) =
     (case parseLine st line of
        None \<Rightarrow> None
      | Some st1 \<Rightarrow> parseLines st1 lines)"

definition initialState :: "jsstring list \<Rightarrow> ParserState" where
  "initialState lines =
     (let rootNode = \<lparr> h_id = root_id,
                        h_text = (case findRootText lines of
                                    None \<Rightarrow> defaultRootText
                                  | Some text \<Rightarrow> text),
                        h_level = 0, h_children = [], h_expanded = True \<rparr>
      in \<lparr> heap = [rootNode], stack = [(0, 0)], nodeIdCounter = 0, currentBaseLevel = 0,
           isFirstHeading = True \<rparr>)"

text \<open>The whole run of parseMarkdown, up to its \<^verbatim>\<open>return\<close>: the final store.\<close>

definition parseMarkdownRun :: "jsstring \<Rightarrow> ParserState option" where
  "parseMarkdownRun markdown =
     (let lines = splitOn 10 markdown in parseLines (initialState lines) lines)"

text \<open>
  The value the caller sees behind a reference: the object with its children read out of
  the store. The parser only ever pushes a newer object into an older object's list, so
  the readout follows references upwards only; it keeps no other.
\<close>

function treeOf :: "heap \<Rightarrow> nat \<Rightarrow> INodeData" where
  "treeOf h i =
     INodeData (h_id (h ! i)) (h_text (h ! i)) (int (h_level (h ! i)))
       (map (treeOf h) (filter (\<lambda>j. i < j \<and> j < length h) (h_children (h ! i))))
       (Some (h_expanded (h ! i)))"
  by pat_completeness auto
termination
  by (relation "measure (\<lambda>(h, i). length h - i)") auto

definition parseMarkdown :: "jsstring \<Rightarrow> INodeData option" where
  "parseMarkdown markdown =
     (case parseMarkdownRun markdown of
        None \<Rightarrow> None
      | Some st \<Rightarrow> Some (treeOf (heap st) 0))"

section \<open>Notions used to state the parser's properties\<close>

text \<open>
  The parent resolution rule in the words of the specification: pop the stack while the
  top entry's level is at least the new level. The source's loop also stops at a
  one-element stack.
\<close>

function popWhileAtLeast :: "nat \<Rightarrow> stack \<Rightarrow> stack" where
  "popWhileAtLeast level stk =
     (if stk \<noteq> [] \<and> snd (last stk) \<ge> level then popWhileAtLeast level (butlast stk)
      else stk)"
  by pat_completeness auto
termination
  by (relation "measure (\<lambda>(level, stk). length stk)") auto

text \<open>
  How the loop body classifies a line. A heading line is a line the heading pattern
  matches; its label is the second group, trimmed and without its trailing dash. The
  loop only acts on a heading line whose label is not empty: \<open>headingLabel\<close> gives its
  marker count and label.
\<close>

definition isHeadingLine :: "jsstring \<Rightarrow> bool" where
  "isHeadingLine line = (headingMatch (trim line) \<noteq> None)"

definition headingLabel :: "jsstring \<Rightarrow> (nat \<times> jsstring) option" where
  "headingLabel line =
     (case headingMatch (trim line) of
        None \<Rightarrow> None
      | Some (hashes, rest) \<Rightarrow>
          (let text = removeTrailingDash (trim rest)
           in if text \<noteq> [] then Some (length hashes, text) else None))"

text \<open>A list line with a label that is not empty, and that label.\<close>

definition listLabel :: "jsstring \<Rightarrow> jsstring option" where
  "listLabel line =
     (if isHeadingLine line then None
      else (case listMatch (trim line) of
              None \<Rightarrow> None
            | Some rest \<Rightarrow> if trim rest \<noteq> [] then Some (trim rest) else None))"

text \<open>
  A line that is not blank and starts, after its indentation, with none of the marker
  characters \<open>#\<close>, \<open>-\<close> and \<open>*\<close>.
\<close>

definition isBareText :: "jsstring \<Rightarrow> bool" where
  "isBareText line =
     (trim line \<noteq> [] \<and> \<not> startsWith (trim line) 35 \<and> \<not> startsWith (trim line) 45
      \<and> \<not> startsWith (trim line) 42)"

definition leadingWhitespace :: "jsstring \<Rightarrow> jsstring" where
  "leadingWhitespace line = takeWhile isWhitespace line"

text \<open>
  One store continues another: every object of the first is still there under the same
  reference with the same id, label, level and flag, and its list of children has only
  been appended to.
\<close>

definition continues :: "heap \<Rightarrow> heap \<Rightarrow> bool" where
  "continues h h' =
     (length h \<le> length h'
      \<and> (\<forall>k < length h.
            h_id (h' ! k) = h_id (h ! k) \<and> h_text (h' ! k) = h_text (h ! k)
            \<and> h_level (h' ! k) = h_level (h ! k) \<and> h_expanded (h' ! k) = h_expanded (h ! k)
            \<and> prefix (h_children (h ! k)) (h_children (h' ! k))))"

text \<open>
  The number of objects in the store when the loop has processed the first \<open>n\<close> lines,
  and: line number \<open>n\<close> of the input (from 0) creates the object with reference \<open>k\<close>.
\<close>

definition storeSizeAfter :: "jsstring \<Rightarrow> nat \<Rightarrow> nat" where
  "storeSizeAfter markdown n =
     (let lines = splitOn 10 markdown
      in case parseLines (initialState lines) (take n lines) of
           None \<Rightarrow> 0
         | Some st \<Rightarrow> length (heap st))"

definition createdAt :: "jsstring \<Rightarrow> nat \<Rightarrow> nat \<Rightarrow> bool" where
  "createdAt markdown n k =
     (n < length (splitOn 10 markdown)
      \<and> storeSizeAfter markdown n = k \<and> storeSizeAfter markdown (Suc n) = Suc k)"

text \<open>
  The tree behind the root reference when the loop has processed the first \<open>n\<close> lines:
  what the caller would get if the loop ended there.
\<close>

definition treeAfter :: "jsstring \<Rightarrow> nat \<Rightarrow> INodeData option" where
  "treeAfter markdown n =
     (let lines = splitOn 10 markdown
      in case parseLines (initialState lines) (take n lines) of
           None \<Rightarrow> None
         | Some st \<Rightarrow> Some (treeOf (heap st) 0))"

text \<open>The nodes of a tree, each as its id, label and level.\<close>

definition nodeLabels :: "INodeData \<Rightarrow> (jsstring \<times> jsstring \<times> int) set" where
  "nodeLabels tree = (\<lambda>node. (n_id node, n_text node, n_level node)) ` set (getAllNodes tree)"

section \<open>Invariants of the parser's loop\<close>

text \<open>
  The bottom of the stack is the root at level 0; every other entry is a node other than
  the root, pushed at a level of at least 1; every entry refers into the store.
\<close>

definition stackInv :: "ParserState \<Rightarrow> bool" where
  "stackInv st =
     ((\<exists>rest. stack st = (0, 0) # rest \<and> (\<forall>e \<in> set rest. 1 \<le> fst e \<and> 1 \<le> snd e))
      \<and> (\<forall>e \<in> set (stack st). fst e < length (heap st)))"

text \<open>
  Every list of children holds references into the store that are newer than the parent,
  in increasing order.
\<close>

definition heapInv :: "heap \<Rightarrow> bool" where
  "heapInv h =
     (h \<noteq> []
      \<and> (\<forall>k < length h.
            (\<forall>c \<in> set (h_children (h ! k)). k < c \<and> c < length h)
            \<and> sorted_wrt (<) (h_children (h ! k))))"

text \<open>
  The root has the id \<^verbatim>\<open>'root'\<close>; the object with reference \<open>k + 1\<close> has the id
  \<^verbatim>\<open>'node-k'\<close>, a level of at least 1 and the flag false; the counter is the number of
  objects created so far.
\<close>

definition idsInv :: "ParserState \<Rightarrow> bool" where
  "idsInv st =
     (Suc (nodeIdCounter st) = length (heap st)
      \<and> h_id (heap st ! 0) = root_id \<and> h_level (heap st ! 0) = 0 \<and> h_expanded (heap st ! 0)
      \<and> (\<forall>k. Suc k < length (heap st) \<longrightarrow>
            h_id (heap st ! Suc k) = node_prefix @ decimal k
            \<and> 1 \<le> h_level (heap st ! Suc k) \<and> \<not> h_expanded (heap st ! Suc k)))"

text \<open>Every object of level 1 is a child of the root.\<close>

definition topLevelInv :: "heap \<Rightarrow> bool" where
  "topLevelInv h =
     (\<forall>k. 1 \<le> k \<and> k < length h \<and> h_level (h ! k) = 1 \<longrightarrow> k \<in> set (h_children (h ! 0)))"

text \<open>Every object but the root is in the list of children of an older object.\<close>

definition attachedInv :: "heap \<Rightarrow> bool" where
  "attachedInv h =
     (\<forall>k. 1 \<le> k \<and> k < length h \<longrightarrow> (\<exists>j < k. k \<in> set (h_children (h ! j))))"

definition parserInv :: "ParserState \<Rightarrow> bool" where
  "parserInv st = (stackInv st \<and> heapInv (heap st) \<and> idsInv st \<and> topLevelInv (heap st))"

declare popStack.simps [simp del] popWhileAtLeast.simps [simp del] treeOf.simps [simp del]
  decimal.simps [simp del]

section \<open>Concrete inputs\<close>

text \<open>Two positions used as concrete inputs: a non-root parent and a child to its right.\<close>

definition examplePos :: "jsstring \<Rightarrow> number \<Rightarrow> number \<Rightarrow> number \<Rightarrow> number \<Rightarrow> NodePosition" where
  "examplePos i x y w h =
     \<lparr> p_id = i, p_text = [], p_x = x, p_y = y, p_width = w, p_height = h, p_level = 1,
       p_hasChildren = False, p_expanded = False, p_parentId = None \<rparr>"

text \<open>Two nodes of depth 1 used as concrete inputs: twenty Latin letters, and one.\<close>

definition exampleWide :: INodeData where
  "exampleWide =
     INodeData (node_prefix @ [48])
       [97, 97, 97, 97, 97, 97, 97, 97, 97, 97, 97, 97, 97, 97, 97, 97, 97, 97, 97, 97]
       1 [] (Some False)"

definition exampleNarrow :: INodeData where
  "exampleNarrow = INodeData (node_prefix @ [49]) [97] 1 [] (Some False)"

text \<open>
  \<open>exampleRootIdChild\<close> is a node of depth 1 with thirty Latin letters whose id is
  \<^verbatim>\<open>'root'\<close>; \<open>exampleFamily\<close> is a tree with the root \<open>r\<close> and the two children
  \<open>exampleRootIdChild\<close> and \<open>exampleWide\<close>. \<open>exampleMid\<close> is a node \<open>y\<close> of depth 1 with
  twenty-six letters and one child, of depth 2 with thirty-two letters, that has the id of
  \<open>exampleWide\<close>; \<open>exampleRepeatedId\<close> is a tree with the root \<open>r\<close> and the two children
  \<open>exampleWide\<close> and \<open>exampleMid\<close>.
\<close>

definition exampleRootIdChild :: INodeData where
  "exampleRootIdChild =
     INodeData root_id
       [97, 97, 97, 97, 97, 97, 97, 97, 97, 97, 97, 97, 97, 97, 97, 97, 97, 97, 97, 97,
        97, 97, 97, 97, 97, 97, 97, 97, 97, 97]
       1 [] (Some False)"

definition exampleFamily :: INodeData where
  "exampleFamily = INodeData [114] [] 0 [exampleRootIdChild, exampleWide] (Some True)"

definition exampleMid :: INodeData where
  "exampleMid =
     INodeData [121]
       [97, 97, 97, 97, 97, 97, 97, 97, 97, 97, 97, 97, 97, 97, 97, 97, 97, 97, 97, 97,
        97, 97, 97, 97, 97, 97]
       1
       [INodeData (node_prefix @ [48])
          [97, 97, 97, 97, 97, 97, 97, 97, 97, 97, 97, 97, 97, 97, 97, 97, 97, 97, 97, 97,
           97, 97, 97, 97, 97, 97, 97, 97, 97, 97, 97, 97]
          2 [] (Some False)]
       (Some True)"

definition exampleRepeatedId :: INodeData where
  "exampleRepeatedId = INodeData [114] [] 0 [exampleWide, exampleMid] (Some True)"

text \<open>
  Outlines used as concrete inputs, as code units. \<open>exampleDashHeading\<close> is the two
  lines \<^verbatim>\<open># -\<close> and \<^verbatim>\<open># A\<close>; \<open>exampleTwoDashes\<close> is the line \<^verbatim>\<open># A --\<close>;
  \<open>exampleOneSpace\<close> is the line \<^verbatim>\<open> x\<close> with one
  leading space; \<open>exampleHeadings\<close> is the five lines \<^verbatim>\<open># T\<close>, \<^verbatim>\<open>## A\<close>,
  \<^verbatim>\<open>### B\<close>, \<^verbatim>\<open>#### C\<close>, \<^verbatim>\<open>## D\<close>; \<open>exampleBullets\<close> is the two lines
  \<^verbatim>\<open>- X\<close> and \<^verbatim>\<open>  - Y\<close>; \<open>exampleIndent\<close> is the two lines \<^verbatim>\<open># T\<close> and
  \<^verbatim>\<open>  a\<close>.
\<close>

definition exampleDashHeading :: jsstring where
  "exampleDashHeading = [35, 32, 45, 10, 35, 32, 65]"

definition exampleTwoDashes :: jsstring where
  "exampleTwoDashes = [35, 32, 65, 32, 45, 45]"

definition exampleOneSpace :: jsstring where
  "exampleOneSpace = [32, 120]"

definition exampleHeadings :: jsstring where
  "exampleHeadings =
     [35, 32, 84, 10, 35, 35, 32, 65, 10, 35, 35, 35, 32, 66, 10,
      35, 35, 35, 35, 32, 67, 10, 35, 35, 32, 68]"

text \<open>
  \<open>exampleShallowIndent\<close> is the two lines \<^verbatim>\<open># T\<close> and \<^verbatim>\<open> x\<close>, the second with one
  leading space; \<open>exampleTwoSpaces\<close> is the line \<^verbatim>\<open>  x\<close> with two leading spaces.
  \<open>exampleTestOutline\<close> is the input of the test \<^verbatim>\<open>should handle indented text\<close> of
  markdownParser.test.ts: four lines of bare text, with no, two, four and two leading
  spaces, written in the characters U+4E3B, U+9898, U+5B50 and the digits 1 and 2.
\<close>

definition exampleShallowIndent :: jsstring where
  "exampleShallowIndent = [35, 32, 84, 10, 32, 120]"

definition exampleTwoSpaces :: jsstring where
  "exampleTwoSpaces = [32, 32, 120]"

definition exampleTestOutline :: jsstring where
  "exampleTestOutline =
     [0x4e3b, 0x9898, 10,
      32, 32, 0x5b50, 0x4e3b, 0x9898, 49, 10,
      32, 32, 32, 32, 0x5b50, 0x5b50, 0x4e3b, 0x9898, 49, 10,
      32, 32, 0x5b50, 0x4e3b, 0x9898, 50]"

definition exampleBullets :: jsstring where
  "exampleBullets = [45, 32, 88, 10, 32, 32, 45, 32, 89]"

definition exampleIndent :: jsstring where
  "exampleIndent = [35, 32, 84, 10, 32, 32, 97]"

text \<open>
  Trees and options used as concrete inputs. \<open>exampleCollapsed\<close> is a collapsed root with
  one child \<open>a\<close>; \<open>exampleSameId\<close> is an expanded root whose only child has the root's
  id; \<open>exampleTwoChildren\<close> is an expanded root with the children \<open>a\<close> and \<open>b\<close>;
  \<open>exampleNested\<close> is a root \<open>r\<close> with a child \<open>a\<close> that has a child \<open>c\<close>, all
  expanded. \<open>exampleOptions\<close> sets the direction and the centre offset only.
\<close>

definition exampleCollapsed :: INodeData where
  "exampleCollapsed = INodeData root_id [] 0 [INodeData [97] [] 1 [] (Some False)] (Some False)"

definition exampleSameId :: INodeData where
  "exampleSameId = INodeData root_id [] 0 [INodeData root_id [] 1 [] (Some False)] (Some True)"

definition exampleTwoChildren :: INodeData where
  "exampleTwoChildren =
     INodeData root_id [] 0
       [INodeData [97] [] 1 [] (Some False), INodeData [98] [] 1 [] (Some False)] (Some True)"

definition exampleNested :: INodeData where
  "exampleNested =
     INodeData [114] [] 0
       [INodeData [97] [] 1 [INodeData [99] [] 2 [] (Some False)] (Some True)] (Some True)"

definition exampleOptions :: "Direction option \<Rightarrow> number option \<Rightarrow> LayoutOptions" where
  "exampleOptions d c =
     \<lparr> o_direction = d, o_horizontalSpacing = None, o_verticalSpacing = None,
       o_nodeWidth = None, o_nodeHeight = None, o_centerOffset = c,
       o_levelSpacingMultiplier = None \<rparr>"

text \<open>\<open>exampleSameIdChain\<close>: a root with a child \<open>x\<close> whose own child is also \<open>x\<close>.\<close>

definition exampleSameIdChain :: INodeData where
  "exampleSameIdChain =
     INodeData root_id [] 0
       [INodeData [120] [] 1 [INodeData [120] [] 2 [] (Some False)] (Some True)] (Some True)"

section \<open>Properties of the edge path generator\<close>




section \<open>Properties of the dimension estimator\<close>

lemma extraHeight_mono: "a \<le> b \<Longrightarrow> extraHeight a \<le> extraHeight b"
proof -
  assume ab: "a \<le> b"
  have mid: "of_int \<lfloor>(a - 180) / 12\<rfloor> \<le> (14::rat)" if "a \<le> 350"
  proof -
    have "(a - 180) / 12 < 15" using that by simp
    then have "\<lfloor>(a - 180) / 12\<rfloor> < 15" by (simp add: floor_less_iff)
    then have "\<lfloor>(a - 180) / 12\<rfloor> \<le> 14" by simp
    then show ?thesis by (metis of_int_le_iff of_int_numeral)
  qed
  have nn: "(0::rat) \<le> of_int \<lfloor>(b - 180) / 12\<rfloor>" if "180 < b"
    using that by simp
  have nn2: "(0::rat) \<le> of_int \<lfloor>(b - 350) / 10\<rfloor>" if "350 < b"
    using that by simp
  have m1: "(of_int \<lfloor>(a - 180) / 12\<rfloor> :: rat) \<le> of_int \<lfloor>(b - 180) / 12\<rfloor>"
    using ab by (simp add: floor_mono divide_right_mono)
  have m2: "(of_int \<lfloor>(a - 350) / 10\<rfloor> :: rat) \<le> of_int \<lfloor>(b - 350) / 10\<rfloor>"
    using ab by (simp add: floor_mono divide_right_mono)
  have cross: "(of_int \<lfloor>(a - 180) / 12\<rfloor> :: rat) \<le> 14 + of_int \<lfloor>(b - 350) / 10\<rfloor>"
    if "a \<le> 350" "350 < b"
    using mid [OF that(1)] nn2 [OF that(2)] by linarith
  show ?thesis
  proof (cases "180 < a")
    case False
    then show ?thesis unfolding extraHeight_def using nn nn2 by (auto intro: add_nonneg_nonneg)
  next
    case True
    then have b: "180 < b" using ab by simp
    show ?thesis
    proof (cases "a \<le> 350")
      case True
      then show ?thesis unfolding extraHeight_def using \<open>180 < a\<close> b m1 cross by auto
    next
      case False
      then show ?thesis unfolding extraHeight_def using \<open>180 < a\<close> b ab m2 by auto
    qed
  qed
qed

lemma setDimensions_source:
  "setDimensions dims nodes i = Some d \<Longrightarrow>
     dims i = Some d \<or> (\<exists>n \<in> set nodes. n_id n = i
        \<and> d = \<lparr> d_width = estimatedWidth n, d_height = estimatedHeight n \<rparr>)"
  by (induction dims nodes rule: setDimensions.induct) (auto split: if_splits)

lemma setDimensions_distinct:
  "distinct (map n_id nodes) \<Longrightarrow> n \<in> set nodes \<Longrightarrow>
     setDimensions dims nodes (n_id n) = Some \<lparr> d_width = estimatedWidth n, d_height = estimatedHeight n \<rparr>"
proof (induction dims nodes rule: setDimensions.induct)
  case (1 dimensions)
  then show ?case by simp
next
  case (2 dimensions node nodes)
  have keep: "setDimensions m ns k = m k" if "k \<notin> n_id ` set ns" for m ns k
    using that by (induction m ns rule: setDimensions.induct) auto
  show ?case
  proof (cases "n = node")
    case True
    then show ?thesis using 2 by (simp add: keep)
  next
    case False
    then show ?thesis using 2 by (auto simp del: fun_upd_apply)
  qed
qed

lemmas dim_eval = estimatedWidth_def estimatedHeight_def extraHeight_def getFontConfig_def
  isChinese_def isHighSurrogate_def isLowSurrogate_def calculateNodeDimensions_def Let_def
  root_id_def node_prefix_def

text \<open>
  C9 as stated fails for a node that is not the root of the tree and has the id
  \<^verbatim>\<open>'root'\<close>: the estimator tests the id, not the position in the tree, and gives the
  node the base height alone. In \<open>exampleFamily\<close> the two children of the root have depth 1;
  the one with the id \<^verbatim>\<open>'root'\<close> is measured 328 wide and 36 high, its sibling 228 wide
  and 40 high. It also fails for the stored sizes when an id is repeated, since the later
  node's size replaces the earlier one's: in \<open>exampleRepeatedId\<close> the size stored under the
  id of \<open>exampleWide\<close>, of depth 1, is 312 by 43, that of its sibling \<open>exampleMid\<close> 288 by
  45.
\<close>

theorem estimatedHeight_monotone_counterexample:
  "getAllNodes exampleFamily = [exampleFamily, exampleRootIdChild, exampleWide]
   \<and> n_level exampleRootIdChild = 1 \<and> n_level exampleWide = 1
   \<and> calculateNodeDimensions (getAllNodes exampleFamily) (n_id exampleRootIdChild)
       = Some \<lparr> d_width = 328, d_height = 36 \<rparr>
   \<and> calculateNodeDimensions (getAllNodes exampleFamily) (n_id exampleWide)
       = Some \<lparr> d_width = 228, d_height = 40 \<rparr>
   \<and> estimatedWidth exampleRootIdChild = 328 \<and> estimatedHeight exampleRootIdChild = 36
   \<and> estimatedWidth exampleWide = 228 \<and> estimatedHeight exampleWide = 40
   \<and> n_level exampleMid = 1
   \<and> calculateNodeDimensions (getAllNodes exampleRepeatedId) (n_id exampleWide)
       = Some \<lparr> d_width = 312, d_height = 43 \<rparr>
   \<and> calculateNodeDimensions (getAllNodes exampleRepeatedId) (n_id exampleMid)
       = Some \<lparr> d_width = 288, d_height = 45 \<rparr>"
  by (simp add: exampleFamily_def exampleRootIdChild_def exampleWide_def exampleMid_def
      exampleRepeatedId_def dim_eval)

text \<open>
  C9, as amended. For two nodes of the same depth, neither with the id \<^verbatim>\<open>'root'\<close>, if the
  estimated width of the first exceeds that of the second, its estimated height is at
  least that of the second; and these are the widths and heights that one pass of
  calculateNodeDimensions over nodes with distinct ids stores for the two.
\<close>

theorem estimatedHeight_monotone:
  assumes "n_level a = n_level b" and "n_id a \<noteq> root_id" and "n_id b \<noteq> root_id"
    and "estimatedWidth b < estimatedWidth a"
  shows "estimatedHeight b \<le> estimatedHeight a
         \<and> (\<forall>nodes. distinct (map n_id nodes) \<and> a \<in> set nodes \<and> b \<in> set nodes \<longrightarrow>
               (\<exists>da db. calculateNodeDimensions nodes (n_id a) = Some da
                  \<and> calculateNodeDimensions nodes (n_id b) = Some db
                  \<and> d_width db < d_width da \<and> d_height db \<le> d_height da))"
proof -
  have h: "estimatedHeight b \<le> estimatedHeight a"
    using assms extraHeight_mono [of "estimatedWidth b" "estimatedWidth a"]
    by (simp add: estimatedHeight_def Let_def)
  have "\<exists>da db. calculateNodeDimensions nodes (n_id a) = Some da
                  \<and> calculateNodeDimensions nodes (n_id b) = Some db
                  \<and> d_width db < d_width da \<and> d_height db \<le> d_height da"
    if "distinct (map n_id nodes) \<and> a \<in> set nodes \<and> b \<in> set nodes" for nodes
    unfolding calculateNodeDimensions_def
    using that setDimensions_distinct [of nodes a Map.empty]
      setDimensions_distinct [of nodes b Map.empty] h assms(4) by simp
  then show ?thesis using h by blast
qed

lemma exampleWide_width: "estimatedWidth exampleWide = 228"
  by (simp add: exampleWide_def estimatedWidth_def getFontConfig_def isChinese_def
      isHighSurrogate_def isLowSurrogate_def Let_def)

lemma exampleNarrow_width: "estimatedWidth exampleNarrow = 60"
  by (simp add: exampleNarrow_def estimatedWidth_def getFontConfig_def isChinese_def Let_def)

theorem estimatedHeight_monotone_witness:
  "n_level exampleWide = n_level exampleNarrow
   \<and> n_id exampleWide \<noteq> root_id \<and> n_id exampleNarrow \<noteq> root_id
   \<and> estimatedWidth exampleNarrow < estimatedWidth exampleWide
   \<and> estimatedHeight exampleNarrow \<le> estimatedHeight exampleWide
   \<and> estimatedHeight exampleNarrow = 36 \<and> estimatedHeight exampleWide = 40"
proof -
  have l: "n_level exampleWide = n_level exampleNarrow"
    by (simp add: exampleWide_def exampleNarrow_def)
  have i: "n_id exampleWide \<noteq> root_id" "n_id exampleNarrow \<noteq> root_id"
    by (simp_all add: exampleWide_def exampleNarrow_def node_prefix_def root_id_def)
  have w: "estimatedWidth exampleNarrow < estimatedWidth exampleWide"
    by (simp add: exampleWide_width exampleNarrow_width)
  have hn: "estimatedHeight exampleNarrow = 36"
    using i by (simp add: estimatedHeight_def exampleNarrow_width extraHeight_def Let_def)
       (simp add: exampleNarrow_def getFontConfig_def)
  have hw: "estimatedHeight exampleWide = 40"
    using i by (simp add: estimatedHeight_def exampleWide_width extraHeight_def Let_def)
       (simp add: exampleWide_def getFontConfig_def)
  from estimatedHeight_monotone [OF l i w, THEN conjunct1] l i w hn hw show ?thesis by simp
qed

section \<open>Properties of the outline parser: the stack\<close>

lemma rev_snoc_split: "rest \<noteq> [] \<Longrightarrow> rev rest = last rest # rev (butlast rest)"
  by (induction rest rule: rev_induct) auto

lemma popWhileAtLeast_eq:
  "popWhileAtLeast level s = rev (dropWhile (\<lambda>e. level \<le> snd e) (rev s))"
proof (induction level s rule: popWhileAtLeast.induct)
  case (1 level s)
  show ?case
  proof (cases "s \<noteq> [] \<and> snd (last s) \<ge> level")
    case True
    then have rs: "rev s = last s # rev (butlast s)" by (simp add: rev_snoc_split)
    have "dropWhile (\<lambda>e. level \<le> snd e) (rev s) =
               dropWhile (\<lambda>e. level \<le> snd e) (rev (butlast s))"
      using True by (subst rs) simp
    moreover have "popWhileAtLeast level s = popWhileAtLeast level (butlast s)"
      using True by (subst popWhileAtLeast.simps) simp
    ultimately show ?thesis using 1 True by simp
  next
    case False
    then have p: "popWhileAtLeast level s = s" by (subst popWhileAtLeast.simps) auto
    show ?thesis
    proof (cases "s = []")
      case True
      then show ?thesis using p by simp
    next
      case ne: False
      then have rs: "rev s = last s # rev (butlast s)" by (simp add: rev_snoc_split)
      have "\<not> level \<le> snd (last s)" using False ne by simp
      then have "dropWhile (\<lambda>e. level \<le> snd e) (last s # rev (butlast s))
                 = last s # rev (butlast s)" by simp
      then have "dropWhile (\<lambda>e. level \<le> snd e) (rev s) = rev s" by (simp only: rs)
      then show ?thesis using p by simp
    qed
  qed
qed

lemma popStack_Nil: "popStack level [] = []"
  by (subst popStack.simps) simp

lemma popStack_Cons:
  "popStack level (b # rest) = b # popWhileAtLeast level rest"
proof (induction rest rule: rev_induct)
  case Nil
  show ?case by (subst popStack.simps, subst popWhileAtLeast.simps) simp
next
  case (snoc e rest)
  show ?case
  proof (cases "level \<le> snd e")
    case True
    have "popStack level (b # rest @ [e]) = popStack level (butlast (b # rest @ [e]))"
      using True by (subst popStack.simps) simp
    also have "butlast (b # rest @ [e]) = b # rest" by (simp add: butlast_append)
    finally have a: "popStack level (b # rest @ [e]) = b # popWhileAtLeast level rest"
      using snoc by simp
    have "popWhileAtLeast level (rest @ [e]) = popWhileAtLeast level rest"
      using True by (subst popWhileAtLeast.simps) simp
    then show ?thesis using a by simp
  next
    case False
    have "popStack level (b # rest @ [e]) = b # rest @ [e]"
      using False by (subst popStack.simps) simp
    moreover have "popWhileAtLeast level (rest @ [e]) = rest @ [e]"
      using False by (subst popWhileAtLeast.simps) simp
    ultimately show ?thesis by simp
  qed
qed

text \<open>On a stack whose bottom entry has level 0, and for a level of at least 1, the
  source's loop and the rule of the specification agree.\<close>

lemma popStack_refines:
  assumes "1 \<le> level"
  shows "popStack level ((r, 0) # rest) = popWhileAtLeast level ((r, 0) # rest)"
proof -
  have "popWhileAtLeast level ((r, 0) # rest) = (r, 0) # popWhileAtLeast level rest"
    unfolding popWhileAtLeast_eq using assms
    by (simp add: dropWhile_append)
  then show ?thesis by (simp add: popStack_Cons)
qed

lemma popWhileAtLeast_subset: "set (popWhileAtLeast level s) \<subseteq> set s"
  unfolding popWhileAtLeast_eq by (auto dest: set_dropWhileD)

lemma popWhileAtLeast_all:
  "\<forall>e \<in> set s. level \<le> snd e \<Longrightarrow> popWhileAtLeast level s = []"
  unfolding popWhileAtLeast_eq by simp

text \<open>What a call of processNode does to a state whose stack is not empty.\<close>

lemma emitNode_result:
  fixes st :: ParserState and level :: nat
  assumes "stack st = b # rest"
  defines "stack1 \<equiv> b # popWhileAtLeast level rest"
  defines "parent \<equiv> fst (last stack1)"
  defines "new \<equiv> length (heap st)"
  shows "emitNode st text level =
           Some (st \<lparr> heap := (heap st)[parent := (heap st ! parent)
                                  \<lparr> h_children := h_children (heap st ! parent) @ [new] \<rparr>]
                              @ [\<lparr> h_id = node_prefix @ decimal (nodeIdCounter st), h_text = text,
                                   h_level = level, h_children = [], h_expanded = False \<rparr>],
                        stack := stack1 @ [(new, level)],
                        nodeIdCounter := nodeIdCounter st + 1 \<rparr>)"
  unfolding emitNode_def processNode_def stack1_def parent_def new_def
  using assms(1) by (simp add: popStack_Cons Let_def)

section \<open>Properties of the outline parser: one call of processNode\<close>

lemma push_nth:
  fixes h :: heap and c :: HeapNode
  assumes "p < length h"
  defines "h' \<equiv> h[p := (h ! p) \<lparr> h_children := h_children (h ! p) @ [length h] \<rparr>] @ [c]"
  shows "length h' = Suc (length h)"
    and "h' ! length h = c"
    and "h' ! p = (h ! p) \<lparr> h_children := h_children (h ! p) @ [length h] \<rparr>"
    and "\<forall>k. k < length h \<and> k \<noteq> p \<longrightarrow> h' ! k = h ! k"
  using assms(1) unfolding h'_def by (simp_all add: nth_append)

text \<open>The same four facts as hypotheses about an arbitrary store \<open>h'\<close>.\<close>

lemma pushed_continues:
  fixes h h' :: heap
  assumes p: "p < length h"
    and len: "length h' = Suc (length h)"
    and par: "h' ! p = (h ! p) \<lparr> h_children := h_children (h ! p) @ [length h] \<rparr>"
    and oth: "\<forall>k. k < length h \<and> k \<noteq> p \<longrightarrow> h' ! k = h ! k"
  shows "continues h h'"
proof -
  have "h_id (h' ! k) = h_id (h ! k) \<and> h_text (h' ! k) = h_text (h ! k)
      \<and> h_level (h' ! k) = h_level (h ! k) \<and> h_expanded (h' ! k) = h_expanded (h ! k)
      \<and> prefix (h_children (h ! k)) (h_children (h' ! k))" if "k < length h" for k
  proof (cases "k = p")
    case True
    then show ?thesis using par by simp
  next
    case False
    then have "h' ! k = h ! k" using oth that by simp
    then show ?thesis by simp
  qed
  then show ?thesis unfolding continues_def using len by simp
qed

lemma pushed_heapInv:
  fixes h h' :: heap
  assumes inv: "heapInv h" and p: "p < length h"
    and len: "length h' = Suc (length h)"
    and new: "h_children (h' ! length h) = []"
    and par: "h' ! p = (h ! p) \<lparr> h_children := h_children (h ! p) @ [length h] \<rparr>"
    and oth: "\<forall>k. k < length h \<and> k \<noteq> p \<longrightarrow> h' ! k = h ! k"
  shows "heapInv h'"
proof -
  have old: "k < x \<and> x < length h" if "k < length h" "x \<in> set (h_children (h ! k))" for k x
    using inv that unfolding heapInv_def by blast
  have srt: "sorted_wrt (<) (h_children (h ! k))" if "k < length h" for k
    using inv that unfolding heapInv_def by blast
  have "(\<forall>x \<in> set (h_children (h' ! k)). k < x \<and> x < length h')
        \<and> sorted_wrt (<) (h_children (h' ! k))" if k: "k < length h'" for k
  proof -
    consider "k = length h" | "k = p" | "k < length h" "k \<noteq> p"
      using k len by linarith
    then show ?thesis
    proof cases
      case 1
      then show ?thesis using new by simp
    next
      case 2
      have a: "\<forall>x \<in> set (h_children (h ! p)). p < x \<and> x < length h"
        using old [OF p] by blast
      have "sorted_wrt (<) (h_children (h ! p) @ [length h])"
        using srt [OF p] a by (simp add: sorted_wrt_append)
      moreover have "\<forall>x \<in> set (h_children (h ! p) @ [length h]). p < x \<and> x < length h'"
        using a p len by auto
      ultimately show ?thesis using 2 par by simp
    next
      case 3
      then have e: "h' ! k = h ! k" using oth by simp
      have "\<forall>x \<in> set (h_children (h ! k)). k < x \<and> x < length h'"
        using old [OF 3(1)] len by (simp add: less_SucI)
      then show ?thesis using e srt [OF 3(1)] by simp
    qed
  qed
  moreover have "h' \<noteq> []" using len by auto
  ultimately show ?thesis unfolding heapInv_def by blast
qed

lemma pushed_topLevelInv:
  fixes h h' :: heap
  assumes inv: "topLevelInv h" and p: "p < length h"
    and len: "length h' = Suc (length h)"
    and new: "h_level (h' ! length h) = 1 \<longrightarrow> p = 0"
    and par: "h' ! p = (h ! p) \<lparr> h_children := h_children (h ! p) @ [length h] \<rparr>"
    and oth: "\<forall>k. k < length h \<and> k \<noteq> p \<longrightarrow> h' ! k = h ! k"
  shows "topLevelInv h'"
proof -
  have cont: "continues h h'" using pushed_continues [OF p len par oth] .
  have z: "0 < length h" using p by linarith
  have c0: "set (h_children (h ! 0)) \<subseteq> set (h_children (h' ! 0))"
    using cont z unfolding continues_def by (meson set_mono_prefix)
  have "k \<in> set (h_children (h' ! 0))"
    if k: "1 \<le> k" "k < length h'" "h_level (h' ! k) = 1" for k
  proof (cases "k = length h")
    case True
    then have "p = 0" using new k(3) by simp
    then show ?thesis using True par by simp
  next
    case False
    then have kl: "k < length h" using k(2) len by simp
    have "h_level (h ! k) = 1"
      using k(3) cont kl unfolding continues_def by simp
    then have "k \<in> set (h_children (h ! 0))"
      using inv k(1) kl unfolding topLevelInv_def by simp
    then show ?thesis using c0 by auto
  qed
  then show ?thesis unfolding topLevelInv_def by simp
qed

lemma emitNode_step:
  fixes st :: ParserState and level :: nat
  assumes inv: "parserInv st" and lv: "1 \<le> level"
  defines "stack1 \<equiv> popWhileAtLeast level (stack st)"
  defines "parent \<equiv> fst (last stack1)"
  defines "new \<equiv> length (heap st)"
  shows "\<exists>st'. emitNode st text level = Some st'
           \<and> parserInv st' \<and> continues (heap st) (heap st')
           \<and> length (heap st') = Suc new
           \<and> h_id (heap st' ! new) = node_prefix @ decimal (nodeIdCounter st)
           \<and> h_text (heap st' ! new) = text \<and> h_level (heap st' ! new) = level
           \<and> h_children (heap st' ! new) = [] \<and> \<not> h_expanded (heap st' ! new)
           \<and> popStack level (stack st) = stack1 \<and> stack1 \<noteq> [] \<and> parent < new
           \<and> h_children (heap st' ! parent) = h_children (heap st ! parent) @ [new]
           \<and> (\<forall>k. k < new \<and> k \<noteq> parent \<longrightarrow> heap st' ! k = heap st ! k)
           \<and> stack st' = stack1 @ [(new, level)]
           \<and> nodeIdCounter st' = Suc (nodeIdCounter st)
           \<and> currentBaseLevel st' = currentBaseLevel st
           \<and> isFirstHeading st' = isFirstHeading st"
proof -
  from inv obtain rest where st: "stack st = (0, 0) # rest"
    and rest: "\<forall>e \<in> set rest. 1 \<le> fst e \<and> 1 \<le> snd e"
    and refs: "\<forall>e \<in> set (stack st). fst e < length (heap st)"
    unfolding parserInv_def stackInv_def by blast
  from inv have hinv: "heapInv (heap st)" and iinv: "idsInv st" and tinv: "topLevelInv (heap st)"
    unfolding parserInv_def by simp_all
  have ne: "heap st \<noteq> []" using hinv unfolding heapInv_def by simp
  have s1: "stack1 = (0, 0) # popWhileAtLeast level rest"
    unfolding stack1_def st using popStack_refines [OF lv, of 0 rest] by (simp add: popStack_Cons)
  have pop: "popStack level (stack st) = stack1"
    unfolding s1 st by (simp add: popStack_Cons)
  have sub: "set stack1 \<subseteq> set (stack st)"
    unfolding stack1_def by (rule popWhileAtLeast_subset)
  have s1ne: "stack1 \<noteq> []" using s1 by simp
  then have "last stack1 \<in> set (stack st)" using sub last_in_set by blast
  then have pl: "parent < length (heap st)" unfolding parent_def using refs by blast
  let ?c = "\<lparr> h_id = node_prefix @ decimal (nodeIdCounter st), h_text = text,
              h_level = level, h_children = [], h_expanded = False \<rparr>"
  let ?h' = "(heap st)[parent := (heap st ! parent)
                \<lparr> h_children := h_children (heap st ! parent) @ [length (heap st)] \<rparr>] @ [?c]"
  let ?st' = "st \<lparr> heap := ?h', stack := stack1 @ [(new, level)],
                     nodeIdCounter := nodeIdCounter st + 1 \<rparr>"
  have res: "emitNode st text level = Some ?st'"
    using emitNode_result [OF st, of "text" level] unfolding s1 parent_def new_def by simp
  note n = push_nth [OF pl, where c = "?c"]
  have cont: "continues (heap st) ?h'" by (rule pushed_continues [OF pl n(1) n(3) n(4)])
  have hinv': "heapInv ?h'"
    by (rule pushed_heapInv [OF hinv pl n(1) _ n(3) n(4)]) (simp add: n(2))
  have p0: "parent = 0" if "level = 1"
  proof -
    have "popWhileAtLeast level rest = []"
      using rest that by (intro popWhileAtLeast_all) simp
    then show ?thesis unfolding parent_def s1 by simp
  qed
  have tinv': "topLevelInv ?h'"
    by (rule pushed_topLevelInv [OF tinv pl n(1) _ n(3) n(4)]) (simp add: n(2) p0)
  have sinv': "stackInv ?st'"
  proof -
    have a: "stack ?st' = (0, 0) # (popWhileAtLeast level rest @ [(new, level)])"
      using s1 by simp
    have "set (popWhileAtLeast level rest) \<subseteq> set rest" by (rule popWhileAtLeast_subset)
    then have b: "\<forall>e \<in> set (popWhileAtLeast level rest @ [(new, level)]). 1 \<le> fst e \<and> 1 \<le> snd e"
      using rest lv ne unfolding new_def by (auto simp: Suc_le_eq)
    have "\<forall>e \<in> set stack1. fst e < length (heap st)" using sub refs by blast
    then have "\<forall>e \<in> set stack1. fst e < Suc (length (heap st))" by (simp add: less_SucI)
    then have c: "\<forall>e \<in> set (stack ?st'). fst e < length (heap ?st')"
      using n(1) unfolding new_def by simp
    show ?thesis unfolding stackInv_def using a b c by blast
  qed
  have iinv': "idsInv ?st'"
  proof -
    from iinv have cnt: "Suc (nodeIdCounter st) = length (heap st)"
      and r: "h_id (heap st ! 0) = root_id" "h_level (heap st ! 0) = 0" "h_expanded (heap st ! 0)"
      and o: "\<And>k. Suc k < length (heap st) \<Longrightarrow>
            h_id (heap st ! Suc k) = node_prefix @ decimal k
            \<and> 1 \<le> h_level (heap st ! Suc k) \<and> \<not> h_expanded (heap st ! Suc k)"
      unfolding idsInv_def by simp_all
    have z: "0 < length (heap st)" using ne by simp
    have r': "h_id (?h' ! 0) = root_id \<and> h_level (?h' ! 0) = 0 \<and> h_expanded (?h' ! 0)"
      using cont z r unfolding continues_def by simp
    have o': "h_id (?h' ! Suc k) = node_prefix @ decimal k
            \<and> 1 \<le> h_level (?h' ! Suc k) \<and> \<not> h_expanded (?h' ! Suc k)"
      if "Suc k < length ?h'" for k
    proof (cases "Suc k = length (heap st)")
      case True
      then have "k = nodeIdCounter st" using cnt by simp
      then show ?thesis using True n(2) lv by simp
    next
      case False
      then have kl: "Suc k < length (heap st)" using that n(1) by simp
      then show ?thesis using o [OF kl] cont unfolding continues_def by simp
    qed
    show ?thesis unfolding idsInv_def using cnt n(1) r' o' by simp
  qed
  have inv': "parserInv ?st'"
    unfolding parserInv_def using sinv' hinv' iinv' tinv' by simp
  have "h_children (?h' ! parent) = h_children (heap st ! parent) @ [new]"
    using n(3) unfolding new_def by simp
  moreover have "\<forall>k. k < new \<and> k \<noteq> parent \<longrightarrow> ?h' ! k = heap st ! k"
    using n(4) unfolding new_def by simp
  ultimately show ?thesis
    using res inv' cont n(1) n(2) pop s1ne pl unfolding new_def by simp
qed

section \<open>Properties of the outline parser: one line\<close>

lemma headingMatch_Nil: "headingMatch [] = None"
  by (simp add: headingMatch_def)

lemma headingMatch_startsWith: "headingMatch s = Some g \<Longrightarrow> startsWith s 35"
  by (cases s) (auto simp: headingMatch_def startsWith_def Let_def split: if_splits)

lemma listMatch_startsWith: "listMatch s = Some g \<Longrightarrow> startsWith s 45 \<or> startsWith s 42"
  by (cases s) (auto simp: listMatch_def startsWith_def split: if_splits)

lemma listMatch_not_heading: "listMatch s = Some g \<Longrightarrow> headingMatch s = None"
  by (cases s) (auto simp: listMatch_def headingMatch_def Let_def split: if_splits)

lemma headingMatch_count:
  "headingMatch s = Some (hashes, rest) \<Longrightarrow> 1 \<le> length hashes \<and> length hashes \<le> 6"
  by (auto simp: headingMatch_def Let_def split: if_splits)

lemma headingLabel_count: "headingLabel line = Some (n, t) \<Longrightarrow> 1 \<le> n \<and> n \<le> 6 \<and> t \<noteq> []"
  by (auto simp: headingLabel_def Let_def dest: headingMatch_count split: option.splits if_splits)

lemma headingLabel_isHeadingLine: "headingLabel line = Some nt \<Longrightarrow> isHeadingLine line"
  by (auto simp: headingLabel_def isHeadingLine_def split: option.splits)

lemma isBareText_no_match:
  "isBareText line \<Longrightarrow> headingMatch (trim line) = None \<and> listMatch (trim line) = None"
  unfolding isBareText_def
  by (metis headingMatch_startsWith listMatch_startsWith not_Some_eq)

lemma isBareText_labels: "isBareText line \<Longrightarrow> headingLabel line = None \<and> listLabel line = None"
  by (auto simp: headingLabel_def listLabel_def dest: isBareText_no_match)

lemma listLabel_not_heading: "listLabel line = Some t \<Longrightarrow> headingLabel line = None"
  by (auto simp: listLabel_def headingLabel_def isHeadingLine_def split: if_splits option.splits)

text \<open>The four ways the loop body treats a line.\<close>

lemma parseLine_heading:
  assumes "headingLabel line = Some (n, t)"
  shows "parseLine st line =
           (if isFirstHeading st
            then Some (st \<lparr> currentBaseLevel := n, isFirstHeading := False \<rparr>)
            else (case emitNode st t n of
                    None \<Rightarrow> None
                  | Some st1 \<Rightarrow> Some (st1 \<lparr> currentBaseLevel := n \<rparr>)))"
proof -
  from assms obtain hashes rest where m: "headingMatch (trim line) = Some (hashes, rest)"
    and t: "t = removeTrailingDash (trim rest)" "t \<noteq> []" and n: "length hashes = n"
    by (auto simp: headingLabel_def Let_def split: option.splits if_splits)
  have "trim line \<noteq> []" using m headingMatch_Nil by auto
  then show ?thesis using m t n by (simp add: parseLine_def Let_def split: option.splits)
qed

lemma parseLine_list:
  assumes "listLabel line = Some t"
  shows "parseLine st line
         = emitNode st t (currentBaseLevel st + calculateIndentLevel line + 1)"
proof -
  from assms obtain rest where m: "listMatch (trim line) = Some rest"
    and t: "t = trim rest" "t \<noteq> []"
    by (auto simp: listLabel_def isHeadingLine_def split: option.splits if_splits)
  have h: "headingMatch (trim line) = None" by (rule listMatch_not_heading [OF m])
  have "trim line \<noteq> []" using m by (auto simp: listMatch_def)
  then show ?thesis using m t h by (simp add: parseLine_def Let_def)
qed

lemma parseLine_bare:
  assumes "isBareText line" and "0 < calculateIndentLevel line"
  shows "parseLine st line
         = emitNode st (trim line) (currentBaseLevel st + calculateIndentLevel line)"
  using assms isBareText_no_match [OF assms(1)]
  by (simp add: parseLine_def Let_def isBareText_def)

lemma parseLine_ignored:
  assumes "headingLabel line = None" and "listLabel line = None"
    and "\<not> (isBareText line \<and> 0 < calculateIndentLevel line)"
  shows "parseLine st line = Some st"
proof (cases "trim line = []")
  case True
  then show ?thesis by (simp add: parseLine_def)
next
  case ne: False
  show ?thesis
  proof (cases "headingMatch (trim line)")
    case (Some g)
    then show ?thesis using assms(1) ne
      by (auto simp: parseLine_def headingLabel_def Let_def split: prod.splits if_splits)
  next
    case None
    show ?thesis
    proof (cases "listMatch (trim line)")
      case (Some rest)
      then show ?thesis using assms(2) None ne
        by (auto simp: parseLine_def listLabel_def isHeadingLine_def Let_def split: if_splits)
    next
      case lnone: None
      show ?thesis using assms(3) None lnone ne
        by (auto simp: parseLine_def isBareText_def Let_def)
    qed
  qed
qed

lemma parserInv_base [simp]:
  "parserInv (st \<lparr> currentBaseLevel := n \<rparr>) = parserInv st"
  "parserInv (st \<lparr> isFirstHeading := b \<rparr>) = parserInv st"
  by (simp_all add: parserInv_def stackInv_def idsInv_def)

text \<open>One line: the loop body returns, keeps the invariants, and creates at most one object.\<close>

lemma parseLine_step:
  assumes inv: "parserInv st"
  shows "\<exists>st'. parseLine st line = Some st' \<and> parserInv st'
           \<and> continues (heap st) (heap st')
           \<and> (length (heap st') = length (heap st) \<or> length (heap st') = Suc (length (heap st)))
           \<and> (isFirstHeading st' \<longleftrightarrow> isFirstHeading st \<and> headingLabel line = None)
           \<and> currentBaseLevel st' =
               (case headingLabel line of None \<Rightarrow> currentBaseLevel st | Some (n, t) \<Rightarrow> n)"
proof -
  have refl: "continues (heap st) (heap st)" by (simp add: continues_def)
  consider (heading) n t where "headingLabel line = Some (n, t)"
    | (list) t where "listLabel line = Some t"
    | (bare) "isBareText line" "0 < calculateIndentLevel line"
    | (ignored) "headingLabel line = None" "listLabel line = None"
        "\<not> (isBareText line \<and> 0 < calculateIndentLevel line)"
    by (cases "headingLabel line"; cases "listLabel line") auto
  then show ?thesis
  proof cases
    case heading
    have n: "1 \<le> n" using headingLabel_count [OF heading] by simp
    show ?thesis
    proof (cases "isFirstHeading st")
      case True
      then show ?thesis using parseLine_heading [OF heading, of st] inv refl heading by simp
    next
      case False
      from emitNode_step [OF inv n, of t] obtain st1 where
        "emitNode st t n = Some st1" "parserInv st1" "continues (heap st) (heap st1)"
        "length (heap st1) = Suc (length (heap st))" "isFirstHeading st1 = isFirstHeading st"
        "currentBaseLevel st1 = currentBaseLevel st"
        by blast
      then show ?thesis using parseLine_heading [OF heading, of st] False heading by simp
    qed
  next
    case list
    from emitNode_step [OF inv, of "currentBaseLevel st + calculateIndentLevel line + 1" t]
    obtain st1 where
      "emitNode st t (currentBaseLevel st + calculateIndentLevel line + 1) = Some st1"
      "parserInv st1" "continues (heap st) (heap st1)"
      "length (heap st1) = Suc (length (heap st))" "isFirstHeading st1 = isFirstHeading st"
      "currentBaseLevel st1 = currentBaseLevel st"
      by auto
    then show ?thesis using parseLine_list [OF list, of st] listLabel_not_heading [OF list]
      by simp
  next
    case bare
    from emitNode_step [OF inv, of "currentBaseLevel st + calculateIndentLevel line" "trim line"]
      bare(2)
    obtain st1 where
      "emitNode st (trim line) (currentBaseLevel st + calculateIndentLevel line) = Some st1"
      "parserInv st1" "continues (heap st) (heap st1)"
      "length (heap st1) = Suc (length (heap st))" "isFirstHeading st1 = isFirstHeading st"
      "currentBaseLevel st1 = currentBaseLevel st"
      by auto
    then show ?thesis using parseLine_bare [OF bare, of st] isBareText_labels [OF bare(1)]
      by simp
  next
    case ignored
    then show ?thesis using parseLine_ignored [OF ignored, of st] inv refl by simp
  qed
qed

section \<open>Properties of the outline parser: the loop\<close>

lemma continues_refl: "continues h h"
  by (simp add: continues_def)

lemma continues_trans:
  assumes "continues h1 h2" and "continues h2 h3"
  shows "continues h1 h3"
proof -
  have l: "length h1 \<le> length h2" "length h2 \<le> length h3"
    using assms unfolding continues_def by simp_all
  have "h_id (h3 ! k) = h_id (h1 ! k) \<and> h_text (h3 ! k) = h_text (h1 ! k)
      \<and> h_level (h3 ! k) = h_level (h1 ! k) \<and> h_expanded (h3 ! k) = h_expanded (h1 ! k)
      \<and> prefix (h_children (h1 ! k)) (h_children (h3 ! k))" if k: "k < length h1" for k
  proof -
    have k2: "k < length h2" using k l by simp
    have a: "h_id (h2 ! k) = h_id (h1 ! k) \<and> h_text (h2 ! k) = h_text (h1 ! k)
      \<and> h_level (h2 ! k) = h_level (h1 ! k) \<and> h_expanded (h2 ! k) = h_expanded (h1 ! k)
      \<and> prefix (h_children (h1 ! k)) (h_children (h2 ! k))"
      using assms(1) k unfolding continues_def by blast
    have b: "h_id (h3 ! k) = h_id (h2 ! k) \<and> h_text (h3 ! k) = h_text (h2 ! k)
      \<and> h_level (h3 ! k) = h_level (h2 ! k) \<and> h_expanded (h3 ! k) = h_expanded (h2 ! k)
      \<and> prefix (h_children (h2 ! k)) (h_children (h3 ! k))"
      using assms(2) k2 unfolding continues_def by blast
    show ?thesis using a b by (auto intro: prefix_order.trans)
  qed
  then show ?thesis unfolding continues_def using l by simp
qed

lemma parseLines_append:
  "parseLines st (xs @ ys) =
     (case parseLines st xs of None \<Rightarrow> None | Some st1 \<Rightarrow> parseLines st1 ys)"
  by (induction xs arbitrary: st) (auto split: option.splits)

lemma initialState_inv: "parserInv (initialState lines)"
  by (simp add: parserInv_def stackInv_def heapInv_def idsInv_def topLevelInv_def
      initialState_def Let_def)

text \<open>The loop over any list of lines returns, from any state that satisfies the invariants.\<close>

lemma parseLines_run:
  assumes "parserInv st"
  shows "\<exists>st'. parseLines st ls = Some st' \<and> parserInv st'
           \<and> continues (heap st) (heap st')
           \<and> (isFirstHeading st' \<longleftrightarrow> isFirstHeading st \<and> (\<forall>l \<in> set ls. headingLabel l = None))
           \<and> ((\<forall>l \<in> set ls. headingLabel l = None) \<longrightarrow> currentBaseLevel st' = currentBaseLevel st)"
  using assms
proof (induction ls arbitrary: st)
  case Nil
  then show ?case by (simp add: continues_refl)
next
  case (Cons l ls)
  from parseLine_step [OF Cons.prems, of l] obtain st1 where
    s1: "parseLine st l = Some st1" "parserInv st1" "continues (heap st) (heap st1)"
    "isFirstHeading st1 \<longleftrightarrow> isFirstHeading st \<and> headingLabel l = None"
    "currentBaseLevel st1 = (case headingLabel l of None \<Rightarrow> currentBaseLevel st | Some (n, t) \<Rightarrow> n)"
    by blast
  from Cons.IH [OF s1(2)] obtain st' where
    s2: "parseLines st1 ls = Some st'" "parserInv st'" "continues (heap st1) (heap st')"
    "isFirstHeading st' \<longleftrightarrow> isFirstHeading st1 \<and> (\<forall>l \<in> set ls. headingLabel l = None)"
    "(\<forall>l \<in> set ls. headingLabel l = None) \<longrightarrow> currentBaseLevel st' = currentBaseLevel st1"
    by blast
  have "continues (heap st) (heap st')" using continues_trans [OF s1(3) s2(3)] .
  then show ?case using s1 s2 by auto
qed

lemma findRootText_Cons:
  "findRootText (l # ls) =
     (case headingLabel l of Some (n, t) \<Rightarrow> Some t | None \<Rightarrow> findRootText ls)"
  by (auto simp: headingLabel_def headingMatch_Nil Let_def split: option.splits)

lemma findRootText_first:
  assumes "\<forall>l \<in> set pre. headingLabel l = None"
  shows "findRootText (pre @ line # post) =
     (case headingLabel line of Some (n, t) \<Rightarrow> Some t | None \<Rightarrow> findRootText post)"
  using assms
proof (induction pre)
  case Nil
  show ?case by (simp only: append_Nil findRootText_Cons)
next
  case (Cons a pre)
  then show ?case by (simp only: append_Cons findRootText_Cons) simp
qed

lemma findRootText_none:
  "(\<forall>l \<in> set ls. headingLabel l = None) \<Longrightarrow> findRootText ls = None"
proof (induction ls)
  case Nil
  show ?case by simp
next
  case (Cons a ls)
  then show ?case by (simp only: findRootText_Cons) simp
qed

text \<open>In a store that satisfies the invariant the readout drops no child.\<close>

lemma treeOf_children:
  assumes "heapInv h" and "i < length h"
  shows "treeOf h i =
           INodeData (h_id (h ! i)) (h_text (h ! i)) (int (h_level (h ! i)))
             (map (treeOf h) (h_children (h ! i))) (Some (h_expanded (h ! i)))"
proof -
  have "\<forall>c \<in> set (h_children (h ! i)). i < c \<and> c < length h"
    using assms unfolding heapInv_def by blast
  then have "filter (\<lambda>j. i < j \<and> j < length h) (h_children (h ! i)) = h_children (h ! i)"
    by (simp add: filter_id_conv)
  then show ?thesis by (subst treeOf.simps) simp
qed

lemma parseMarkdownRun_returns:
  "\<exists>st. parseMarkdownRun markdown = Some st \<and> parserInv st
     \<and> continues (heap (initialState (splitOn 10 markdown))) (heap st)"
  using parseLines_run [OF initialState_inv, of "splitOn 10 markdown" "splitOn 10 markdown"]
  unfolding parseMarkdownRun_def by (auto simp: Let_def)

text \<open>A line that changes the size of the store does so through one call of processNode.\<close>

lemma parseLine_emits:
  assumes inv: "parserInv st" and run: "parseLine st line = Some st1"
    and grow: "length (heap st1) \<noteq> length (heap st)"
  shows "\<exists>t lvl e. 1 \<le> lvl \<and> emitNode st t lvl = Some e
           \<and> heap st1 = heap e \<and> stack st1 = stack e
           \<and> ((headingLabel line = Some (lvl, t) \<and> \<not> isFirstHeading st)
               \<or> (listLabel line = Some t
                   \<and> lvl = currentBaseLevel st + calculateIndentLevel line + 1)
               \<or> (isBareText line \<and> 0 < calculateIndentLevel line \<and> t = trim line
                   \<and> lvl = currentBaseLevel st + calculateIndentLevel line))"
proof -
  consider (heading) n t where "headingLabel line = Some (n, t)"
    | (list) t where "listLabel line = Some t"
    | (bare) "isBareText line" "0 < calculateIndentLevel line"
    | (ignored) "headingLabel line = None" "listLabel line = None"
        "\<not> (isBareText line \<and> 0 < calculateIndentLevel line)"
    by (cases "headingLabel line"; cases "listLabel line") auto
  then show ?thesis
  proof cases
    case heading
    have n: "1 \<le> n" using headingLabel_count [OF heading] by simp
    have nf: "\<not> isFirstHeading st"
      using parseLine_heading [OF heading, of st] run grow by auto
    from emitNode_step [OF inv n, of t] obtain e where e: "emitNode st t n = Some e" by blast
    then have "st1 = e \<lparr> currentBaseLevel := n \<rparr>"
      using parseLine_heading [OF heading, of st] run nf by simp
    then show ?thesis using e n nf heading by auto
  next
    case list
    have "emitNode st t (currentBaseLevel st + calculateIndentLevel line + 1) = Some st1"
      using parseLine_list [OF list, of st] run by simp
    then show ?thesis using list by auto
  next
    case bare
    have "emitNode st (trim line) (currentBaseLevel st + calculateIndentLevel line) = Some st1"
      using parseLine_bare [OF bare, of st] run by simp
    moreover have "1 \<le> currentBaseLevel st + calculateIndentLevel line" using bare(2) by simp
    ultimately show ?thesis using bare by blast
  next
    case ignored
    then show ?thesis using parseLine_ignored [OF ignored, of st] run grow by simp
  qed
qed

text \<open>The run on an input, cut at one of its lines.\<close>

lemma run_split:
  assumes split: "splitOn 10 markdown = pre @ line # post"
  shows "\<exists>st st1 fin.
           parseLines (initialState (splitOn 10 markdown)) pre = Some st \<and> parserInv st
           \<and> parseLine st line = Some st1 \<and> parserInv st1
           \<and> parseLines st1 post = Some fin \<and> parserInv fin
           \<and> parseMarkdownRun markdown = Some fin
           \<and> continues (heap (initialState (splitOn 10 markdown))) (heap st)
           \<and> continues (heap st) (heap st1) \<and> continues (heap st1) (heap fin)
           \<and> (length (heap st1) = length (heap st) \<or> length (heap st1) = Suc (length (heap st)))
           \<and> (isFirstHeading st \<longleftrightarrow> (\<forall>l \<in> set pre. headingLabel l = None))
           \<and> ((\<forall>l \<in> set pre. headingLabel l = None) \<longrightarrow> currentBaseLevel st = 0)"
proof -
  let ?init = "initialState (splitOn 10 markdown)"
  from parseLines_run [OF initialState_inv, of "splitOn 10 markdown" pre] obtain st where
    a: "parseLines ?init pre = Some st" "parserInv st" "continues (heap ?init) (heap st)"
    "isFirstHeading st \<longleftrightarrow> isFirstHeading ?init \<and> (\<forall>l \<in> set pre. headingLabel l = None)"
    "(\<forall>l \<in> set pre. headingLabel l = None) \<longrightarrow> currentBaseLevel st = currentBaseLevel ?init"
    by blast
  from parseLine_step [OF a(2), of line] obtain st1 where
    b: "parseLine st line = Some st1" "parserInv st1" "continues (heap st) (heap st1)"
    "length (heap st1) = length (heap st) \<or> length (heap st1) = Suc (length (heap st))"
    by blast
  from parseLines_run [OF b(2), of post] obtain fin where
    c: "parseLines st1 post = Some fin" "parserInv fin" "continues (heap st1) (heap fin)"
    by blast
  have "parseLines ?init (pre @ line # post) = Some fin"
    using a(1) b(1) c(1) by (simp add: parseLines_append)
  then have d: "parseMarkdownRun markdown = Some fin"
    unfolding parseMarkdownRun_def using split by (simp add: Let_def)
  have i: "isFirstHeading ?init" "currentBaseLevel ?init = 0"
    by (simp_all add: initialState_def Let_def)
  show ?thesis using a b c d i by auto
qed

lemma storeSizeAfter_state:
  "\<exists>st. parseLines (initialState (splitOn 10 markdown)) (take n (splitOn 10 markdown)) = Some st
     \<and> parserInv st \<and> storeSizeAfter markdown n = length (heap st)"
  using parseLines_run [OF initialState_inv, of "splitOn 10 markdown" "take n (splitOn 10 markdown)"]
  unfolding storeSizeAfter_def by (auto simp: Let_def)

lemma storeSizeAfter_Suc:
  "storeSizeAfter markdown (Suc n) = storeSizeAfter markdown n
   \<or> (n < length (splitOn 10 markdown)
       \<and> storeSizeAfter markdown (Suc n) = Suc (storeSizeAfter markdown n))"
proof (cases "n < length (splitOn 10 markdown)")
  case False
  then show ?thesis by (simp add: storeSizeAfter_def)
next
  case True
  let ?ls = "splitOn 10 markdown"
  from storeSizeAfter_state [of markdown n] obtain st where
    st: "parseLines (initialState ?ls) (take n ?ls) = Some st" "parserInv st"
    "storeSizeAfter markdown n = length (heap st)" by blast
  from parseLine_step [OF st(2), of "?ls ! n"] obtain st1 where
    s1: "parseLine st (?ls ! n) = Some st1"
    "length (heap st1) = length (heap st) \<or> length (heap st1) = Suc (length (heap st))"
    by blast
  have "take (Suc n) ?ls = take n ?ls @ [?ls ! n]"
    using True by (simp add: take_Suc_conv_app_nth)
  then have "parseLines (initialState ?ls) (take (Suc n) ?ls) = Some st1"
    using st(1) s1(1) by (simp add: parseLines_append)
  then have "storeSizeAfter markdown (Suc n) = length (heap st1)"
    by (simp add: storeSizeAfter_def Let_def)
  then show ?thesis using s1(2) st(3) True by auto
qed

lemma storeSizeAfter_mono: "n \<le> m \<Longrightarrow> storeSizeAfter markdown n \<le> storeSizeAfter markdown m"
proof (induction m)
  case 0
  then show ?case by simp
next
  case (Suc m)
  show ?case
  proof (cases "n = Suc m")
    case True
    then show ?thesis by simp
  next
    case False
    then have "storeSizeAfter markdown n \<le> storeSizeAfter markdown m" using Suc by simp
    then show ?thesis using storeSizeAfter_Suc [of markdown m] by auto
  qed
qed

lemma storeSizeAfter_0: "storeSizeAfter markdown 0 = 1"
  by (simp add: storeSizeAfter_def initialState_def Let_def)

lemma storeSizeAfter_final:
  assumes "parseMarkdownRun markdown = Some fin"
  shows "storeSizeAfter markdown (length (splitOn 10 markdown)) = length (heap fin)"
  using assms by (simp add: storeSizeAfter_def parseMarkdownRun_def Let_def)

text \<open>Objects are created in the order of the lines, and every object but the root by a line.\<close>

lemma createdAt_order:
  assumes "createdAt markdown na a" and "createdAt markdown nb b" and "a < b"
  shows "na < nb"
proof (rule ccontr)
  assume "\<not> na < nb"
  then have "storeSizeAfter markdown nb \<le> storeSizeAfter markdown na"
    by (simp add: storeSizeAfter_mono)
  then show False using assms unfolding createdAt_def by simp
qed

lemma createdAt_exists:
  "1 \<le> k \<Longrightarrow> k < storeSizeAfter markdown m \<Longrightarrow> \<exists>n < m. createdAt markdown n k"
proof (induction m)
  case 0
  then show ?case by (simp add: storeSizeAfter_0)
next
  case (Suc m)
  show ?case
  proof (cases "k < storeSizeAfter markdown m")
    case True
    then obtain n where "n < m" "createdAt markdown n k" using Suc by blast
    then show ?thesis using less_SucI by blast
  next
    case False
    then have "createdAt markdown m k"
      using storeSizeAfter_Suc [of markdown m] Suc.prems unfolding createdAt_def by auto
    then show ?thesis by blast
  qed
qed

lemma treeOf_root_fields:
  "n_id (treeOf h i) = h_id (h ! i)" "n_text (treeOf h i) = h_text (h ! i)"
  "n_level (treeOf h i) = int (h_level (h ! i))"
  "n_expanded (treeOf h i) = Some (h_expanded (h ! i))"
  by (subst treeOf.simps, simp)+

lemma initial_root_text:
  "h_text (heap (initialState ls) ! 0)
   = (case findRootText ls of None \<Rightarrow> defaultRootText | Some t \<Rightarrow> t)"
  by (simp add: initialState_def Let_def)

lemma continues_nth:
  assumes "continues h h'" and "k < length h"
  shows "h_id (h' ! k) = h_id (h ! k)" "h_text (h' ! k) = h_text (h ! k)"
    "h_level (h' ! k) = h_level (h ! k)" "h_expanded (h' ! k) = h_expanded (h ! k)"
    "prefix (h_children (h ! k)) (h_children (h' ! k))" "k < length h'"
  using assms unfolding continues_def by auto

lemma parserInv_heap_nonempty: "parserInv st \<Longrightarrow> 0 < length (heap st)"
  unfolding parserInv_def heapInv_def by simp

lemmas line_eval = headingLabel_def isHeadingLine_def listLabel_def isBareText_def
  leadingWhitespace_def headingMatch_def listMatch_def trim_def startsWith_def
  isWhitespace_def isLineTerminator_def removeTrailingDash_def calculateIndentLevel_def Let_def

lemmas parser_eval = parseMarkdown_def parseMarkdownRun_def initialState_def parseLine_def
  emitNode_def processNode_def popStack_Cons popWhileAtLeast_eq line_eval
  defaultRootText_def root_id_def node_prefix_def decimal.simps treeOf.simps

section \<open>Properties of the outline parser: the returned tree\<close>

lemma getAllNodes_self: "n \<in> set (getAllNodes n)"
  by (cases n) simp

lemma node_id_not_root: "node_prefix @ decimal k \<noteq> root_id"
  by (simp add: node_prefix_def root_id_def)

text \<open>The template literal prints different counters differently.\<close>

lemma decimal_nonempty: "decimal n \<noteq> []"
  by (subst decimal.simps) simp

lemma decimal_inj: "decimal a = decimal b \<Longrightarrow> a = b"
proof (induction a arbitrary: b rule: decimal.induct)
  case (1 n)
  show ?case
  proof (cases "n < 10")
    case True
    show ?thesis
    proof (cases "b < 10")
      case b: True
      then show ?thesis using True 1(2) by (simp add: decimal.simps)
    next
      case b: False
      have "decimal n = [48 + n]" using True by (simp add: decimal.simps)
      moreover have "decimal b = decimal (b div 10) @ [48 + b mod 10]"
        using b by (subst decimal.simps) simp
      ultimately show ?thesis using 1(2) decimal_nonempty [of "b div 10"] by simp
    qed
  next
    case False
    have n: "decimal n = decimal (n div 10) @ [48 + n mod 10]"
      using False by (subst decimal.simps) simp
    show ?thesis
    proof (cases "b < 10")
      case b: True
      have "decimal b = [48 + b]" using b by (simp add: decimal.simps)
      then show ?thesis using n 1(2) decimal_nonempty [of "n div 10"] by simp
    next
      case b: False
      have "decimal b = decimal (b div 10) @ [48 + b mod 10]"
        using b by (subst decimal.simps) simp
      then have "decimal (n div 10) = decimal (b div 10)" "n mod 10 = b mod 10"
        using n 1(2) by simp_all
      then have "n div 10 = b div 10" "n mod 10 = b mod 10" using 1(1) [OF False] by simp_all
      then show ?thesis by (metis div_mult_mod_eq)
    qed
  qed
qed

text \<open>
  The nodes of the readout are the readouts of the objects of the store: every node is
  the readout of an object, and in a store that satisfies the invariants every object is
  reached from the root.
\<close>

lemma getAllNodes_children:
  "n \<in> set (getAllNodes m) \<Longrightarrow> c \<in> set (n_children n) \<Longrightarrow> c \<in> set (getAllNodes m)"
proof (induction m rule: getAllNodes.induct)
  case (1 i t l cs e)
  from 1(2) consider "n = INodeData i t l cs e" | x where "x \<in> set cs" "n \<in> set (getAllNodes x)"
    by auto
  then show ?case
  proof cases
    case 1
    then have "c \<in> set cs" using "1.prems"(2) by simp
    moreover have "c \<in> set (getAllNodes c)" by (rule getAllNodes_self)
    ultimately show ?thesis by auto
  next
    case 2
    then have "c \<in> set (getAllNodes x)" using "1.IH" "1.prems"(2) by blast
    then show ?thesis using 2(1) by auto
  qed
qed

lemma treeOf_nodes:
  "node \<in> set (getAllNodes (treeOf h i)) \<Longrightarrow> i < length h
   \<Longrightarrow> \<exists>k. i \<le> k \<and> k < length h \<and> node = treeOf h k"
proof (induction h i arbitrary: node rule: treeOf.induct)
  case (1 h i)
  let ?cs = "filter (\<lambda>j. i < j \<and> j < length h) (h_children (h ! i))"
  have t: "treeOf h i = INodeData (h_id (h ! i)) (h_text (h ! i)) (int (h_level (h ! i)))
             (map (treeOf h) ?cs) (Some (h_expanded (h ! i)))"
    by (subst treeOf.simps) simp
  from "1.prems"(1) consider "node = treeOf h i"
    | j where "j \<in> set ?cs" "node \<in> set (getAllNodes (treeOf h j))"
    unfolding t by auto
  then show ?case
  proof cases
    case 1
    then show ?thesis using "1.prems"(2) by blast
  next
    case 2
    then have j: "i < j" "j < length h" by simp_all
    from "1.IH" [OF 2(1) 2(2) j(2)] obtain k where k: "j \<le> k" "k < length h" "node = treeOf h k"
      by blast
    note k(2,3)
    moreover have "i \<le> k" using j(1) \<open>j \<le> k\<close> by simp
    ultimately show ?thesis by blast
  qed
qed

lemma treeOf_reachable:
  assumes "heapInv h" and "attachedInv h"
  shows "k < length h \<Longrightarrow> treeOf h k \<in> set (getAllNodes (treeOf h 0))"
proof (induction k rule: less_induct)
  case (less k)
  show ?case
  proof (cases "k = 0")
    case True
    then show ?thesis by (simp add: getAllNodes_self)
  next
    case False
    then obtain j where j: "j < k" "k \<in> set (h_children (h ! j))"
      using assms(2) less.prems unfolding attachedInv_def by (metis One_nat_def Suc_leI neq0_conv)
    have jl: "j < length h" using j(1) less.prems by simp
    have "treeOf h j \<in> set (getAllNodes (treeOf h 0))" using less.IH [OF j(1) jl] .
    moreover have "treeOf h k \<in> set (n_children (treeOf h j))"
      using treeOf_children [OF assms(1) jl] j(2) by simp
    ultimately show ?thesis by (rule getAllNodes_children)
  qed
qed

lemma nodeLabels_treeOf:
  assumes "heapInv h" and "attachedInv h"
  shows "nodeLabels (treeOf h 0) = (\<lambda>k. (h_id (h ! k), h_text (h ! k), int (h_level (h ! k)))) ` {k. k < length h}"
proof -
  have z: "0 < length h" using assms(1) unfolding heapInv_def by simp
  have f: "(n_id (treeOf h k), n_text (treeOf h k), n_level (treeOf h k))
           = (h_id (h ! k), h_text (h ! k), int (h_level (h ! k)))" for k
    by (simp add: treeOf_root_fields)
  show ?thesis
  proof (intro set_eqI iffI)
    fix x assume "x \<in> nodeLabels (treeOf h 0)"
    then obtain node where n: "node \<in> set (getAllNodes (treeOf h 0))"
      "x = (n_id node, n_text node, n_level node)" unfolding nodeLabels_def by blast
    from treeOf_nodes [OF n(1) z] obtain k where "k < length h" "node = treeOf h k" by blast
    then show "x \<in> (\<lambda>k. (h_id (h ! k), h_text (h ! k), int (h_level (h ! k)))) ` {k. k < length h}"
      using n(2) f by auto
  next
    fix x assume "x \<in> (\<lambda>k. (h_id (h ! k), h_text (h ! k), int (h_level (h ! k)))) ` {k. k < length h}"
    then obtain k where k: "k < length h" "x = (h_id (h ! k), h_text (h ! k), int (h_level (h ! k)))"
      by blast
    have "treeOf h k \<in> set (getAllNodes (treeOf h 0))" using treeOf_reachable [OF assms k(1)] .
    then have "(n_id (treeOf h k), n_text (treeOf h k), n_level (treeOf h k)) \<in> nodeLabels (treeOf h 0)"
      unfolding nodeLabels_def by blast
    then show "x \<in> nodeLabels (treeOf h 0)" using k(2) f by simp
  qed
qed

text \<open>The loop keeps every object but the root attached to an older one.\<close>

lemma attachedInv_continues:
  assumes "attachedInv h" and "continues h h'" and "length h' = length h"
  shows "attachedInv h'"
proof -
  have "\<exists>j < k. k \<in> set (h_children (h' ! j))" if k: "1 \<le> k" "k < length h'" for k
  proof -
    from assms(1) k assms(3) obtain j where j: "j < k" "k \<in> set (h_children (h ! j))"
      unfolding attachedInv_def by auto
    have "j < length h" using j(1) k(2) assms(3) by simp
    then have "prefix (h_children (h ! j)) (h_children (h' ! j))"
      using continues_nth(5) [OF assms(2)] by simp
    then show ?thesis using j set_mono_prefix by blast
  qed
  then show ?thesis unfolding attachedInv_def by blast
qed

lemma parseLine_attached:
  assumes inv: "parserInv st" and att: "attachedInv (heap st)"
    and run: "parseLine st line = Some st1"
  shows "attachedInv (heap st1)"
proof -
  from parseLine_step [OF inv, of line] run have
    c: "continues (heap st) (heap st1)"
    and l: "length (heap st1) = length (heap st) \<or> length (heap st1) = Suc (length (heap st))"
    by auto
  show ?thesis
  proof (cases "length (heap st1) = length (heap st)")
    case True
    then show ?thesis using attachedInv_continues [OF att c] by simp
  next
    case False
    then have len: "length (heap st1) = Suc (length (heap st))" using l by simp
    from parseLine_emits [OF inv run False] obtain t lvl e where
      e: "1 \<le> lvl" "emitNode st t lvl = Some e" "heap st1 = heap e" by blast
    let ?p = "fst (last (popWhileAtLeast lvl (stack st)))"
    from emitNode_step [OF inv e(1), of t] e(2) have
      p: "?p < length (heap st)"
         "h_children (heap e ! ?p) = h_children (heap st ! ?p) @ [length (heap st)]"
      by auto
    have "\<exists>j < k. k \<in> set (h_children (heap st1 ! j))" if k: "1 \<le> k" "k < length (heap st1)" for k
    proof (cases "k = length (heap st)")
      case True
      then show ?thesis using p e(3) by auto
    next
      case kf: False
      then have kl: "k < length (heap st)" using k(2) len by simp
      from att k(1) kl obtain j where j: "j < k" "k \<in> set (h_children (heap st ! j))"
        unfolding attachedInv_def by auto
      have "j < length (heap st)" using j(1) kl by simp
      then have "prefix (h_children (heap st ! j)) (h_children (heap st1 ! j))"
        using continues_nth(5) [OF c] by simp
      then show ?thesis using j set_mono_prefix by blast
    qed
    then show ?thesis unfolding attachedInv_def by blast
  qed
qed

lemma parseLines_attached:
  "parserInv st \<Longrightarrow> attachedInv (heap st) \<Longrightarrow> parseLines st ls = Some st'
   \<Longrightarrow> attachedInv (heap st')"
proof (induction ls arbitrary: st)
  case Nil
  then show ?case by simp
next
  case (Cons l ls)
  from parseLine_step [OF Cons.prems(1), of l] obtain st1 where
    s: "parseLine st l = Some st1" "parserInv st1" by blast
  have "attachedInv (heap st1)" using parseLine_attached [OF Cons.prems(1,2) s(1)] .
  moreover have "parseLines st1 ls = Some st'" using Cons.prems(3) s(1) by simp
  ultimately show ?case using Cons.IH [OF s(2)] by blast
qed

lemma initialState_attached: "attachedInv (heap (initialState ls))"
  by (simp add: attachedInv_def initialState_def Let_def)

text \<open>The tree before and after a line, and what an ignored heading line leaves as it is.\<close>

lemma treeAfter_split:
  assumes "splitOn 10 markdown = pre @ line # post"
    and "parseLines (initialState (splitOn 10 markdown)) pre = Some st"
    and "parseLine st line = Some st1"
  shows "treeAfter markdown (length pre) = Some (treeOf (heap st) 0)"
    and "treeAfter markdown (Suc (length pre)) = Some (treeOf (heap st1) 0)"
proof -
  have "take (length pre) (splitOn 10 markdown) = pre" using assms(1) by simp
  then show "treeAfter markdown (length pre) = Some (treeOf (heap st) 0)"
    using assms(2) by (simp add: treeAfter_def Let_def)
  have "take (Suc (length pre)) (splitOn 10 markdown) = pre @ [line]" using assms(1) by simp
  then show "treeAfter markdown (Suc (length pre)) = Some (treeOf (heap st1) 0)"
    using assms(2,3) by (simp add: treeAfter_def Let_def parseLines_append)
qed

lemma parseLine_empty_heading:
  assumes "isHeadingLine line" and "headingLabel line = None"
  shows "parseLine st line = Some st"
proof -
  from assms(1) obtain g where g: "headingMatch (trim line) = Some g"
    unfolding isHeadingLine_def by blast
  have "startsWith (trim line) 35" by (rule headingMatch_startsWith [OF g])
  then have "\<not> isBareText line" by (simp add: isBareText_def)
  moreover have "listLabel line = None" using assms(1) by (simp add: listLabel_def)
  ultimately show ?thesis using parseLine_ignored [OF assms(2)] by blast
qed

lemma findRootText_skip:
  "headingLabel line = None \<Longrightarrow> findRootText (pre @ line # post) = findRootText (pre @ post)"
proof (induction pre)
  case Nil
  then show ?case by (simp only: append_Nil findRootText_Cons) simp
next
  case (Cons a pre)
  then show ?case by (simp only: append_Cons findRootText_Cons)
qed

lemma initialState_label:
  "findRootText a = findRootText b \<Longrightarrow> initialState a = initialState b"
  by (simp add: initialState_def)

text \<open>A new object is one new node of the readout.\<close>

lemma nodeLabels_grow:
  fixes h h' :: heap
  assumes i: "heapInv h" "attachedInv h" "heapInv h'" "attachedInv h'"
    and c: "continues h h'" and l: "length h' = Suc (length h)"
  shows "nodeLabels (treeOf h' 0)
         = insert (h_id (h' ! length h), h_text (h' ! length h), int (h_level (h' ! length h)))
             (nodeLabels (treeOf h 0))"
proof -
  let ?f = "\<lambda>g k. (h_id (g ! k), h_text (g ! k), int (h_level (g ! k)))"
  have same: "?f h' k = ?f h k" if "k < length h" for k
    using continues_nth(1-3) [OF c that] by simp
  have "{k. k < length h'} = insert (length h) {k. k < length h}" using l by auto
  then have "?f h' ` {k. k < length h'} = insert (?f h' (length h)) (?f h' ` {k. k < length h})"
    by simp
  also have "?f h' ` {k. k < length h} = ?f h ` {k. k < length h}"
    using same by (intro image_cong) simp_all
  finally show ?thesis
    unfolding nodeLabels_treeOf [OF i(1,2)] nodeLabels_treeOf [OF i(3,4)] .
qed

text \<open>
  A line that calls processNode adds one node to the tree: the tree after the line has the
  nodes of the tree before it and one more, with the id \<^verbatim>\<open>'node-k'\<close> that no node had
  before, and the returned tree has that node.
\<close>

lemma created_node:
  assumes split: "splitOn 10 markdown = pre @ line # post"
    and pre: "parseLines (initialState (splitOn 10 markdown)) pre = Some st"
    and line: "parseLine st line = Some st1"
    and lvl: "1 \<le> lvl" and emit: "emitNode st t lvl = Some e" and h1: "heap st1 = heap e"
  shows "\<exists>k tb ta tree.
           treeAfter markdown (length pre) = Some tb
           \<and> treeAfter markdown (Suc (length pre)) = Some ta
           \<and> parseMarkdown markdown = Some tree
           \<and> node_prefix @ decimal k \<notin> fst ` nodeLabels tb
           \<and> nodeLabels ta = insert (node_prefix @ decimal k, t, int lvl) (nodeLabels tb)
           \<and> (node_prefix @ decimal k, t, int lvl) \<in> nodeLabels tree"
proof -
  let ?init = "initialState (splitOn 10 markdown)"
  let ?tree = "\<lambda>s :: ParserState. treeOf (heap s) 0"
  from run_split [OF split] pre line obtain fin where
    r: "parserInv st" "parserInv st1" "parseLines st1 post = Some fin" "parserInv fin"
       "parseMarkdownRun markdown = Some fin"
       "continues (heap st) (heap st1)" "continues (heap st1) (heap fin)"
    by auto
  have a: "attachedInv (heap st)"
    using parseLines_attached [OF initialState_inv initialState_attached pre] .
  have a1: "attachedInv (heap st1)" using parseLine_attached [OF r(1) a line] .
  have af: "attachedInv (heap fin)" using parseLines_attached [OF r(2) a1 r(3)] .
  have hi: "heapInv (heap st)" "heapInv (heap st1)" "heapInv (heap fin)"
    using r(1,2,4) unfolding parserInv_def by simp_all
  have res: "parseMarkdown markdown = Some (?tree fin)"
    using r(5) by (simp add: parseMarkdown_def)
  note ta = treeAfter_split [OF split pre line]
  let ?new = "length (heap st)"
  let ?k = "nodeIdCounter st"
  from emitNode_step [OF r(1) lvl, of t] emit have
    e: "length (heap e) = Suc ?new"
       "h_id (heap e ! ?new) = node_prefix @ decimal ?k"
       "h_text (heap e ! ?new) = t" "h_level (heap e ! ?new) = lvl"
    by auto
  have l1: "length (heap st1) = Suc ?new" using h1 e(1) by simp
  have grow: "nodeLabels (?tree st1)
              = insert (node_prefix @ decimal ?k, t, int lvl) (nodeLabels (?tree st))"
    using nodeLabels_grow [OF hi(1) a hi(2) a1 r(6) l1] e(2-4) h1 by simp
  have fresh: "node_prefix @ decimal ?k \<notin> fst ` nodeLabels (?tree st)"
  proof
    assume "node_prefix @ decimal ?k \<in> fst ` nodeLabels (?tree st)"
    then obtain j where j: "j < ?new" "h_id (heap st ! j) = node_prefix @ decimal ?k"
      unfolding nodeLabels_treeOf [OF hi(1) a] by auto
    from r(1) have ids: "Suc ?k = ?new" "h_id (heap st ! 0) = root_id"
      "\<And>m. Suc m < ?new \<Longrightarrow> h_id (heap st ! Suc m) = node_prefix @ decimal m"
      unfolding parserInv_def idsInv_def by simp_all
    show False
    proof (cases j)
      case 0
      then show ?thesis using j(2) ids(2) node_id_not_root [of ?k] by simp
    next
      case (Suc m)
      then have "decimal m = decimal ?k" using ids(3) [of m] j by simp
      then have "m = ?k" by (rule decimal_inj)
      then show ?thesis using Suc j(1) ids(1) by simp
    qed
  qed
  have k: "?new < length (heap st1)" using l1 by simp
  have "?new < length (heap fin)" "h_id (heap fin ! ?new) = node_prefix @ decimal ?k"
    "h_text (heap fin ! ?new) = t" "h_level (heap fin ! ?new) = lvl"
    using continues_nth [OF r(7) k] h1 e(2-4) by simp_all
  then have "(node_prefix @ decimal ?k, t, int lvl) \<in> nodeLabels (?tree fin)"
    unfolding nodeLabels_treeOf [OF hi(3) af] by force
  then show ?thesis using ta res grow fresh by blast
qed

section \<open>Properties of the outline parser: headings\<close>

text \<open>
  C3, as amended. Take any input and any of its lines that the heading pattern matches,
  and the tree that parseMarkdown returns. If the label of the line is not empty once its
  trailing dash is removed, the line has between one and six markers; if no earlier line
  is such a heading, the label is the label of the returned root and the line produces no
  node, the tree after the line being the tree before it; otherwise the line produces one
  node, with the next id \<^verbatim>\<open>'node-k'\<close>, that label and the marker count as its level,
  which the tree before the line does not have, the tree after it has, and the returned
  tree has. If the label is empty the line is ignored: the tree after the line is the tree
  before it, and the input without the line gives the same tree, root included.
\<close>

theorem parseMarkdown_headings:
  assumes split: "splitOn 10 markdown = pre @ line # post"
    and heading: "isHeadingLine line"
  shows "\<exists>tree. parseMarkdown markdown = Some tree
           \<and> (case headingLabel line of
                None \<Rightarrow>
                  treeAfter markdown (Suc (length pre)) = treeAfter markdown (length pre)
                  \<and> (\<forall>other. splitOn 10 other = pre @ post \<longrightarrow> parseMarkdown other = Some tree)
              | Some (n, t) \<Rightarrow>
                  1 \<le> n \<and> n \<le> 6
                  \<and> (if \<forall>l \<in> set pre. headingLabel l = None
                      then n_text tree = t
                           \<and> treeAfter markdown (Suc (length pre)) = treeAfter markdown (length pre)
                      else \<exists>k tb ta.
                             treeAfter markdown (length pre) = Some tb
                             \<and> treeAfter markdown (Suc (length pre)) = Some ta
                             \<and> node_prefix @ decimal k \<notin> fst ` nodeLabels tb
                             \<and> nodeLabels ta
                                 = insert (node_prefix @ decimal k, t, int n) (nodeLabels tb)
                             \<and> (node_prefix @ decimal k, t, int n) \<in> nodeLabels tree))"
proof -
  let ?init = "initialState (splitOn 10 markdown)"
  let ?tree = "\<lambda>s :: ParserState. treeOf (heap s) 0"
  from run_split [OF split] obtain st st1 fin where
    r: "parseLines ?init pre = Some st" "parserInv st" "parseLine st line = Some st1"
       "parseLines st1 post = Some fin" "parseMarkdownRun markdown = Some fin"
       "continues (heap ?init) (heap st)" "continues (heap st) (heap st1)"
       "continues (heap st1) (heap fin)"
       "isFirstHeading st \<longleftrightarrow> (\<forall>l \<in> set pre. headingLabel l = None)"
    by blast
  have res: "parseMarkdown markdown = Some (?tree fin)"
    using r(5) by (simp add: parseMarkdown_def)
  note ta = treeAfter_split [OF split r(1) r(3)]
  have body: "case headingLabel line of
                None \<Rightarrow>
                  treeAfter markdown (Suc (length pre)) = treeAfter markdown (length pre)
                  \<and> (\<forall>other. splitOn 10 other = pre @ post
                        \<longrightarrow> parseMarkdown other = Some (?tree fin))
              | Some (n, t) \<Rightarrow>
                  1 \<le> n \<and> n \<le> 6
                  \<and> (if \<forall>l \<in> set pre. headingLabel l = None
                      then n_text (?tree fin) = t
                           \<and> treeAfter markdown (Suc (length pre)) = treeAfter markdown (length pre)
                      else \<exists>k tb ta.
                             treeAfter markdown (length pre) = Some tb
                             \<and> treeAfter markdown (Suc (length pre)) = Some ta
                             \<and> node_prefix @ decimal k \<notin> fst ` nodeLabels tb
                             \<and> nodeLabels ta
                                 = insert (node_prefix @ decimal k, t, int n) (nodeLabels tb)
                             \<and> (node_prefix @ decimal k, t, int n) \<in> nodeLabels (?tree fin))"
  proof (cases "headingLabel line")
    case None
    have same: "st1 = st" using parseLine_empty_heading [OF heading None, of st] r(3) by simp
    have t: "treeAfter markdown (Suc (length pre)) = treeAfter markdown (length pre)"
      using ta same by simp
    have "parseMarkdown other = Some (?tree fin)" if o: "splitOn 10 other = pre @ post" for other
    proof -
      have "findRootText (splitOn 10 other) = findRootText (splitOn 10 markdown)"
        unfolding o split by (rule findRootText_skip [OF None, symmetric])
      then have "initialState (splitOn 10 other) = ?init" by (rule initialState_label)
      then have "parseMarkdownRun other = parseLines ?init (pre @ post)"
        using o by (simp add: parseMarkdownRun_def Let_def)
      also have "\<dots> = Some fin" using r(1) r(4) same by (simp add: parseLines_append)
      finally show ?thesis by (simp add: parseMarkdown_def)
    qed
    then show ?thesis using None t by simp
  next
    case (Some nt)
    obtain n t where nt: "nt = (n, t)" by (cases nt)
    have label: "headingLabel line = Some (n, t)" using Some nt by simp
    have cnt: "1 \<le> n" "n \<le> 6" using headingLabel_count [OF label] by simp_all
    have rest: "if \<forall>l \<in> set pre. headingLabel l = None
                then n_text (?tree fin) = t
                     \<and> treeAfter markdown (Suc (length pre)) = treeAfter markdown (length pre)
                else \<exists>k tb ta.
                       treeAfter markdown (length pre) = Some tb
                       \<and> treeAfter markdown (Suc (length pre)) = Some ta
                       \<and> node_prefix @ decimal k \<notin> fst ` nodeLabels tb
                       \<and> nodeLabels ta
                           = insert (node_prefix @ decimal k, t, int n) (nodeLabels tb)
                       \<and> (node_prefix @ decimal k, t, int n) \<in> nodeLabels (?tree fin)"
    proof (cases "\<forall>l \<in> set pre. headingLabel l = None")
      case True
      then have first: "isFirstHeading st" using r(9) by simp
      have same: "heap st1 = heap st"
        using parseLine_heading [OF label, of st] first r(3) by auto
      have "findRootText (splitOn 10 markdown) = Some t"
        using findRootText_first [OF True, of line post] label split by simp
      then have t0: "h_text (heap ?init ! 0) = t" by (simp add: initial_root_text)
      have c: "continues (heap ?init) (heap fin)"
        using continues_trans [OF r(6) continues_trans [OF r(7) r(8)]] .
      have "0 < length (heap ?init)" by (simp add: initialState_def Let_def)
      then have "h_text (heap fin ! 0) = t" using continues_nth(2) [OF c] t0 by simp
      then have "n_text (?tree fin) = t" by (simp add: treeOf_root_fields)
      then show ?thesis using True ta same by simp
    next
      case False
      then have nf: "\<not> isFirstHeading st" using r(9) by simp
      from emitNode_step [OF r(2) cnt(1), of t] obtain e where
        e: "emitNode st t n = Some e" by blast
      have "st1 = e \<lparr> currentBaseLevel := n \<rparr>"
        using parseLine_heading [OF label, of st] nf r(3) e by simp
      then have h1: "heap st1 = heap e" by simp
      from created_node [OF split r(1) r(3) cnt(1) e h1] res
      show ?thesis using False by auto
    qed
    show ?thesis using label cnt rest by simp
  qed
  show ?thesis using res body by blast
qed

text \<open>
  C3 as stated fails on a heading line whose label is empty. In the two lines
  \<^verbatim>\<open># -\<close> and \<^verbatim>\<open># A\<close> both are heading lines; the label of the first is empty once
  its dash is removed, the root takes the label of the second, and the second creates no
  object. And of the two trailing dashes of \<^verbatim>\<open># A --\<close> one is removed: the label is
  \<^verbatim>\<open>A -\<close>.
\<close>

theorem parseMarkdown_headings_counterexample:
  "splitOn 10 exampleDashHeading = [[35, 32, 45], [35, 32, 65]]
   \<and> isHeadingLine [35, 32, 45]
   \<and> headingMatch (trim [35, 32, 45]) = Some ([35], [45])
   \<and> removeTrailingDash (trim [45]) = []
   \<and> isHeadingLine [35, 32, 65]
   \<and> parseMarkdown exampleDashHeading = Some (INodeData root_id [65] 0 [] (Some True))
   \<and> parseMarkdown exampleTwoDashes = Some (INodeData root_id [65, 32, 45] 0 [] (Some True))"
  by (simp add: exampleDashHeading_def exampleTwoDashes_def parser_eval)

lemma exampleHeadings_lines:
  "splitOn 10 exampleHeadings =
     [[35, 32, 84], [35, 35, 32, 65], [35, 35, 35, 32, 66], [35, 35, 35, 35, 32, 67]]
     @ [35, 35, 32, 68] # []"
  by (simp add: exampleHeadings_def)

lemma exampleHeadings_run:
  "parseMarkdown exampleHeadings =
     Some (INodeData root_id [84] 0
            [INodeData (node_prefix @ [48]) [65] 2
               [INodeData (node_prefix @ [49]) [66] 3
                  [INodeData (node_prefix @ [50]) [67] 4 [] (Some False)] (Some False)]
               (Some False),
             INodeData (node_prefix @ [51]) [68] 2 [] (Some False)]
            (Some True))"
  by (simp add: exampleHeadings_def parser_eval)

theorem parseMarkdown_headings_witness:
  "splitOn 10 exampleHeadings =
     [[35, 32, 84], [35, 35, 32, 65], [35, 35, 35, 32, 66], [35, 35, 35, 35, 32, 67]]
     @ [35, 35, 32, 68] # []
   \<and> isHeadingLine [35, 35, 32, 68]
   \<and> headingLabel [35, 35, 32, 68] = Some (2, [68])
   \<and> (\<exists>tree k. parseMarkdown exampleHeadings = Some tree
         \<and> (node_prefix @ decimal k, [68], 2) \<in> nodeLabels tree)
   \<and> splitOn 10 exampleHeadings =
       [] @ [35, 32, 84]
       # [[35, 35, 32, 65], [35, 35, 35, 32, 66], [35, 35, 35, 35, 32, 67], [35, 35, 32, 68]]
   \<and> isHeadingLine [35, 32, 84]
   \<and> headingLabel [35, 32, 84] = Some (1, [84])
   \<and> map_option n_text (parseMarkdown exampleHeadings) = Some [84]
   \<and> treeAfter exampleHeadings 1 = treeAfter exampleHeadings 0
   \<and> splitOn 10 exampleDashHeading = [] @ [35, 32, 45] # [[35, 32, 65]]
   \<and> isHeadingLine [35, 32, 45]
   \<and> headingLabel [35, 32, 45] = None
   \<and> splitOn 10 [35, 32, 65] = [] @ [[35, 32, 65]]
   \<and> parseMarkdown [35, 32, 65] = parseMarkdown exampleDashHeading"
proof -
  let ?pre = "[[35, 32, 84], [35, 35, 32, 65], [35, 35, 35, 32, 66], [35, 35, 35, 35, 32, 67]]
              :: jsstring list"
  have l1: "isHeadingLine [35, 35, 32, 68]" "headingLabel [35, 35, 32, 68] = Some (2, [68])"
    by (simp_all add: line_eval)
  have later: "\<not> (\<forall>l \<in> set ?pre. headingLabel l = None)" by (simp add: line_eval)
  have a: "\<exists>tree k. parseMarkdown exampleHeadings = Some tree
         \<and> (node_prefix @ decimal k, [68], 2) \<in> nodeLabels tree"
    using parseMarkdown_headings [OF exampleHeadings_lines l1(1)] later
    unfolding l1(2) by auto
  have s2: "splitOn 10 exampleHeadings =
       [] @ [35, 32, 84]
       # [[35, 35, 32, 65], [35, 35, 35, 32, 66], [35, 35, 35, 35, 32, 67], [35, 35, 32, 68]]"
    by (simp add: exampleHeadings_def)
  have l2: "isHeadingLine [35, 32, 84]" "headingLabel [35, 32, 84] = Some (1, [84])"
    by (simp_all add: line_eval)
  have b: "map_option n_text (parseMarkdown exampleHeadings) = Some [84]
           \<and> treeAfter exampleHeadings 1 = treeAfter exampleHeadings 0"
    using parseMarkdown_headings [OF s2 l2(1)] unfolding l2(2) by auto
  have s3: "splitOn 10 exampleDashHeading = [] @ [35, 32, 45] # [[35, 32, 65]]"
    by (simp add: exampleDashHeading_def)
  have l3: "isHeadingLine [35, 32, 45]" "headingLabel [35, 32, 45] = None"
    by (simp_all add: line_eval)
  have s4: "splitOn 10 [35, 32, 65] = [] @ [[35, 32, 65]]" by simp
  have c: "parseMarkdown [35, 32, 65] = parseMarkdown exampleDashHeading"
    using parseMarkdown_headings [OF s3 l3(1)] s4 unfolding l3(2) by auto
  show ?thesis using exampleHeadings_lines l1 a s2 l2 b s3 l3 s4 c by blast
qed

section \<open>Properties of the outline parser: parent resolution\<close>

lemma createdAt_split:
  assumes split: "splitOn 10 markdown = pre @ line # post"
    and pre: "parseLines (initialState (splitOn 10 markdown)) pre = Some st"
    and line: "parseLine st line = Some st1"
    and grow: "length (heap st1) = Suc (length (heap st))"
  shows "createdAt markdown (length pre) (length (heap st))"
proof -
  let ?ls = "splitOn 10 markdown"
  have t: "take (length pre) ?ls = pre" "take (Suc (length pre)) ?ls = pre @ [line]"
    using split by simp_all
  have a: "storeSizeAfter markdown (length pre) = length (heap st)"
    unfolding storeSizeAfter_def Let_def t using pre by simp
  have "parseLines (initialState ?ls) (pre @ [line]) = Some st1"
    using pre line by (simp add: parseLines_append)
  then have b: "storeSizeAfter markdown (Suc (length pre)) = length (heap st1)"
    unfolding storeSizeAfter_def Let_def t by simp
  show ?thesis unfolding createdAt_def using a b grow split by simp
qed

lemma sorted_wrt_less_nth:
  "sorted_wrt (<) (xs :: nat list) \<Longrightarrow> i < j \<Longrightarrow> j < length xs \<Longrightarrow> xs ! i < xs ! j"
  by (simp add: sorted_wrt_iff_nth_less)

text \<open>
  C4. Whenever a line of an input makes the parser create an object, at some level: the
  source's loop leaves the stack that popping while the top entry's level is at least
  that level leaves, however many entries that removes; the stack is then not empty; the
  new object is appended as the last child of the node on its top and no other object
  changes; the new object is pushed with its level. In the final store every object
  but the root was created by a line, and in every list of children an earlier child was
  created by an earlier line.
\<close>

theorem processNode_parent_resolution:
  "(\<forall>pre line post st st1.
      splitOn 10 markdown = pre @ line # post
      \<and> parseLines (initialState (splitOn 10 markdown)) pre = Some st
      \<and> parseLine st line = Some st1
      \<and> length (heap st1) \<noteq> length (heap st)
      \<longrightarrow> (let newNode = length (heap st);
               level = h_level (heap st1 ! newNode);
               stack1 = popWhileAtLeast level (stack st);
               parentNode = fst (last stack1)
           in popStack level (stack st) = stack1 \<and> stack1 \<noteq> [] \<and> parentNode < newNode
              \<and> length (heap st1) = Suc newNode
              \<and> h_children (heap st1 ! parentNode) = h_children (heap st ! parentNode) @ [newNode]
              \<and> (\<forall>k. k < newNode \<and> k \<noteq> parentNode \<longrightarrow> heap st1 ! k = heap st ! k)
              \<and> stack st1 = stack1 @ [(newNode, level)]
              \<and> createdAt markdown (length pre) newNode))
   \<and> (\<exists>fin. parseMarkdownRun markdown = Some fin
         \<and> (\<forall>k. 1 \<le> k \<and> k < length (heap fin) \<longrightarrow> (\<exists>n. createdAt markdown n k))
         \<and> (\<forall>p i j na nb.
               p < length (heap fin) \<and> i < j \<and> j < length (h_children (heap fin ! p))
               \<and> createdAt markdown na (h_children (heap fin ! p) ! i)
               \<and> createdAt markdown nb (h_children (heap fin ! p) ! j)
               \<longrightarrow> na < nb))"
proof (intro conjI allI impI)
  fix pre line post and st st1 :: ParserState
  assume a: "splitOn 10 markdown = pre @ line # post
      \<and> parseLines (initialState (splitOn 10 markdown)) pre = Some st
      \<and> parseLine st line = Some st1
      \<and> length (heap st1) \<noteq> length (heap st)"
  then have split: "splitOn 10 markdown = pre @ line # post"
    and pre: "parseLines (initialState (splitOn 10 markdown)) pre = Some st"
    and line: "parseLine st line = Some st1"
    and grow: "length (heap st1) \<noteq> length (heap st)" by blast+
  have inv: "parserInv st"
    using parseLines_run [OF initialState_inv, of "splitOn 10 markdown" pre] pre by auto
  from parseLine_emits [OF inv line grow] obtain t lvl e where
    e: "1 \<le> lvl" "emitNode st t lvl = Some e" "heap st1 = heap e" "stack st1 = stack e"
    by blast
  from emitNode_step [OF inv e(1), of t] e(2) have
    s: "length (heap e) = Suc (length (heap st))"
       "h_level (heap e ! length (heap st)) = lvl"
       "popStack lvl (stack st) = popWhileAtLeast lvl (stack st)"
       "popWhileAtLeast lvl (stack st) \<noteq> []"
       "fst (last (popWhileAtLeast lvl (stack st))) < length (heap st)"
       "h_children (heap e ! fst (last (popWhileAtLeast lvl (stack st))))
        = h_children (heap st ! fst (last (popWhileAtLeast lvl (stack st)))) @ [length (heap st)]"
       "\<forall>k. k < length (heap st) \<and> k \<noteq> fst (last (popWhileAtLeast lvl (stack st)))
            \<longrightarrow> heap e ! k = heap st ! k"
       "stack e = popWhileAtLeast lvl (stack st) @ [(length (heap st), lvl)]"
    by auto
  have c: "createdAt markdown (length pre) (length (heap st))"
    using createdAt_split [OF split pre line] s(1) e(3) by simp
  show "let newNode = length (heap st);
               level = h_level (heap st1 ! newNode);
               stack1 = popWhileAtLeast level (stack st);
               parentNode = fst (last stack1)
           in popStack level (stack st) = stack1 \<and> stack1 \<noteq> [] \<and> parentNode < newNode
              \<and> length (heap st1) = Suc newNode
              \<and> h_children (heap st1 ! parentNode) = h_children (heap st ! parentNode) @ [newNode]
              \<and> (\<forall>k. k < newNode \<and> k \<noteq> parentNode \<longrightarrow> heap st1 ! k = heap st ! k)
              \<and> stack st1 = stack1 @ [(newNode, level)]
              \<and> createdAt markdown (length pre) newNode"
    unfolding Let_def e(3) e(4) s(2) using s c by simp
next
  from parseMarkdownRun_returns [of markdown] obtain fin where
    f: "parseMarkdownRun markdown = Some fin" "parserInv fin" by blast
  have size: "storeSizeAfter markdown (length (splitOn 10 markdown)) = length (heap fin)"
    by (rule storeSizeAfter_final [OF f(1)])
  have ex: "\<exists>n. createdAt markdown n k" if "1 \<le> k \<and> k < length (heap fin)" for k
    using createdAt_exists [of k markdown "length (splitOn 10 markdown)"] that size by auto
  have srt: "sorted_wrt (<) (h_children (heap fin ! p))" if "p < length (heap fin)" for p
    using f(2) that unfolding parserInv_def heapInv_def by blast
  have ord: "na < nb"
    if "p < length (heap fin) \<and> i < j \<and> j < length (h_children (heap fin ! p))
        \<and> createdAt markdown na (h_children (heap fin ! p) ! i)
        \<and> createdAt markdown nb (h_children (heap fin ! p) ! j)" for p i j na nb
  proof -
    have "h_children (heap fin ! p) ! i < h_children (heap fin ! p) ! j"
      using sorted_wrt_less_nth [OF srt] that by blast
    then show ?thesis using createdAt_order that by blast
  qed
  show "\<exists>fin. parseMarkdownRun markdown = Some fin
         \<and> (\<forall>k. 1 \<le> k \<and> k < length (heap fin) \<longrightarrow> (\<exists>n. createdAt markdown n k))
         \<and> (\<forall>p i j na nb.
               p < length (heap fin) \<and> i < j \<and> j < length (h_children (heap fin ! p))
               \<and> createdAt markdown na (h_children (heap fin ! p) ! i)
               \<and> createdAt markdown nb (h_children (heap fin ! p) ! j)
               \<longrightarrow> na < nb)"
    using f(1) ex ord by blast
qed

theorem processNode_parent_resolution_witness:
  "\<exists>st st1.
     parseLines (initialState (splitOn 10 exampleHeadings))
       [[35, 32, 84], [35, 35, 32, 65], [35, 35, 35, 32, 66], [35, 35, 35, 35, 32, 67]] = Some st
     \<and> parseLine st [35, 35, 32, 68] = Some st1
     \<and> length (heap st1) \<noteq> length (heap st)
     \<and> stack st = [(0, 0), (1, 2), (2, 3), (3, 4)]
     \<and> h_level (heap st1 ! 4) = 2
     \<and> popStack 2 (stack st) = [(0, 0)]
     \<and> popWhileAtLeast 2 (stack st) = [(0, 0)]
     \<and> h_children (heap st ! 0) = [1]
     \<and> h_children (heap st1 ! 0) = [1, 4]
     \<and> stack st1 = [(0, 0), (4, 2)]
     \<and> createdAt exampleHeadings 4 4"
proof -
  let ?pre = "[[35, 32, 84], [35, 35, 32, 65], [35, 35, 35, 32, 66], [35, 35, 35, 35, 32, 67]]
              :: jsstring list"
  let ?init = "initialState (splitOn 10 exampleHeadings)"
  obtain st where st: "parseLines ?init ?pre = Some st" "parserInv st"
    using parseLines_run [OF initialState_inv, of "splitOn 10 exampleHeadings" ?pre] by blast
  obtain st1 where st1: "parseLine st [35, 35, 32, 68] = Some st1"
    using parseLine_step [OF st(2), of "[35, 35, 32, 68]"] by blast
  have stk: "stack st = [(0, 0), (1, 2), (2, 3), (3, 4)]" and len: "length (heap st) = 4"
    and ch: "h_children (heap st ! 0) = [1]"
    using st(1) by (auto simp: exampleHeadings_def parser_eval)
  have len1: "length (heap st1) = 5" and lv: "h_level (heap st1 ! 4) = 2"
    using st(1) st1 by (auto simp: exampleHeadings_def parser_eval)
  have grow: "length (heap st1) \<noteq> length (heap st)" using len len1 by simp
  have pw: "popWhileAtLeast 2 (stack st) = [(0, 0)]"
    unfolding stk by (simp add: popWhileAtLeast_eq)
  have "let newNode = length (heap st);
            level = h_level (heap st1 ! newNode);
            stack1 = popWhileAtLeast level (stack st);
            parentNode = fst (last stack1)
        in popStack level (stack st) = stack1 \<and> stack1 \<noteq> [] \<and> parentNode < newNode
           \<and> length (heap st1) = Suc newNode
           \<and> h_children (heap st1 ! parentNode) = h_children (heap st ! parentNode) @ [newNode]
           \<and> (\<forall>k. k < newNode \<and> k \<noteq> parentNode \<longrightarrow> heap st1 ! k = heap st ! k)
           \<and> stack st1 = stack1 @ [(newNode, level)]
           \<and> createdAt exampleHeadings (length ?pre) newNode"
    using processNode_parent_resolution [of exampleHeadings] exampleHeadings_lines st(1) st1 grow
    by blast
  then have "popStack 2 (stack st) = [(0, 0)]"
    "h_children (heap st1 ! 0) = [1, 4]" "stack st1 = [(0, 0), (4, 2)]"
    "createdAt exampleHeadings 4 4"
    unfolding Let_def len lv pw using ch by (simp_all add: eval_nat_numeral)
  then show ?thesis using st(1) st1 grow stk lv pw ch by blast
qed

section \<open>Properties of the outline parser: bare indented text\<close>

text \<open>
  What the loop does with a line that is not blank and starts, after its indentation, with
  none of \<open>#\<close>, \<open>-\<close> and \<open>*\<close>. Its indentation level is twice the number of tabs in its
  leading white space plus half, rounded down, the number of its other leading white
  space characters. If that level is not 0 the line creates one object, with the trimmed
  line as its label, at level currentBaseLevel plus the indentation level; if it is 0 the
  state stays as it is.
\<close>

lemma bareText_line:
  assumes split: "splitOn 10 markdown = pre @ line # post"
    and bare: "isBareText line"
  shows "\<exists>st st1 fin.
           parseLines (initialState (splitOn 10 markdown)) pre = Some st
           \<and> parseLine st line = Some st1 \<and> parseLines st1 post = Some fin
           \<and> parseMarkdownRun markdown = Some fin
           \<and> calculateIndentLevel line
               = length (filter (\<lambda>c. c = 9) (leadingWhitespace line)) * 2
                 + length (filter (\<lambda>c. c \<noteq> 9) (leadingWhitespace line)) div 2
           \<and> (if 0 < calculateIndentLevel line
               then length (heap st1) = Suc (length (heap st))
                    \<and> length (heap st) < length (heap fin)
                    \<and> h_text (heap fin ! length (heap st)) = trim line
                    \<and> h_level (heap fin ! length (heap st))
                        = currentBaseLevel st + calculateIndentLevel line
               else st1 = st)"
proof -
  let ?init = "initialState (splitOn 10 markdown)"
  from run_split [OF split] obtain st st1 fin where
    r: "parseLines ?init pre = Some st" "parserInv st" "parseLine st line = Some st1"
       "parseLines st1 post = Some fin" "parseMarkdownRun markdown = Some fin"
       "continues (heap st1) (heap fin)"
    by blast
  have ind: "calculateIndentLevel line
               = length (filter (\<lambda>c. c = 9) (leadingWhitespace line)) * 2
                 + length (filter (\<lambda>c. c \<noteq> 9) (leadingWhitespace line)) div 2"
    by (simp add: calculateIndentLevel_def leadingWhitespace_def Let_def)
  have body: "if 0 < calculateIndentLevel line
               then length (heap st1) = Suc (length (heap st))
                    \<and> length (heap st) < length (heap fin)
                    \<and> h_text (heap fin ! length (heap st)) = trim line
                    \<and> h_level (heap fin ! length (heap st))
                        = currentBaseLevel st + calculateIndentLevel line
               else st1 = st"
  proof (cases "0 < calculateIndentLevel line")
    case True
    then have lv: "1 \<le> currentBaseLevel st + calculateIndentLevel line" by simp
    from emitNode_step [OF r(2) lv, of "trim line"] obtain e where
      e: "emitNode st (trim line) (currentBaseLevel st + calculateIndentLevel line) = Some e"
         "length (heap e) = Suc (length (heap st))"
         "h_text (heap e ! length (heap st)) = trim line"
         "h_level (heap e ! length (heap st)) = currentBaseLevel st + calculateIndentLevel line"
      by blast
    have st1: "st1 = e" using parseLine_bare [OF bare True, of st] r(3) e(1) by simp
    have k: "length (heap st) < length (heap st1)" using st1 e(2) by simp
    show ?thesis using True continues_nth [OF r(6) k] st1 e by simp
  next
    case False
    have "parseLine st line = Some st"
      using parseLine_ignored [of line st] isBareText_labels [OF bare] False by simp
    then show ?thesis using False r(3) by simp
  qed
  show ?thesis using r(1) r(3) r(4) r(5) ind body by blast
qed

text \<open>
  With an indentation level above 0 the line produces one node of the returned tree, with
  the trimmed line as its label, at level currentBaseLevel plus the indentation level.
\<close>

lemma bareText_node:
  assumes split: "splitOn 10 markdown = pre @ line # post"
    and bare: "isBareText line" and ind: "0 < calculateIndentLevel line"
  shows "\<exists>st k tb ta tree.
           parseLines (initialState (splitOn 10 markdown)) pre = Some st
           \<and> treeAfter markdown (length pre) = Some tb
           \<and> treeAfter markdown (Suc (length pre)) = Some ta
           \<and> parseMarkdown markdown = Some tree
           \<and> node_prefix @ decimal k \<notin> fst ` nodeLabels tb
           \<and> nodeLabels ta
               = insert (node_prefix @ decimal k, trim line,
                         int (currentBaseLevel st + calculateIndentLevel line)) (nodeLabels tb)
           \<and> (node_prefix @ decimal k, trim line,
                int (currentBaseLevel st + calculateIndentLevel line)) \<in> nodeLabels tree"
proof -
  from run_split [OF split] obtain st st1 where
    r: "parseLines (initialState (splitOn 10 markdown)) pre = Some st" "parserInv st"
       "parseLine st line = Some st1"
    by blast
  let ?lvl = "currentBaseLevel st + calculateIndentLevel line"
  have lv: "1 \<le> ?lvl" using ind by simp
  from emitNode_step [OF r(2) lv, of "trim line"] obtain e where
    e: "emitNode st (trim line) ?lvl = Some e" by blast
  have "st1 = e" using parseLine_bare [OF bare ind, of st] r(3) e by simp
  then have h1: "heap st1 = heap e" by simp
  from created_node [OF split r(1) r(3) lv e h1] r(1) show ?thesis by blast
qed

text \<open>
  The input of the repository's test \<^verbatim>\<open>should handle indented text\<close>. Its first line
  is bare text without indentation and creates no node; the second and the fourth line
  become children of the root, the third a child of the second. The test expects the
  root to have one child, with two children.
\<close>

lemma exampleTestOutline_run:
  "parseMarkdown exampleTestOutline
       = Some (INodeData root_id defaultRootText 0
                 [INodeData (node_prefix @ [48]) [0x5b50, 0x4e3b, 0x9898, 49] 1
                    [INodeData (node_prefix @ [49]) [0x5b50, 0x5b50, 0x4e3b, 0x9898, 49] 2 []
                       (Some False)]
                    (Some False),
                  INodeData (node_prefix @ [50]) [0x5b50, 0x4e3b, 0x9898, 50] 1 [] (Some False)]
                 (Some True))"
  by (simp add: exampleTestOutline_def parser_eval)

text \<open>
  C6: a line that is not blank, carries no marker and has leading white space produces a
  node at level currentBaseLevel + indentLevel. The source does not do this when
  indentLevel is 0. The second line of \<open>exampleShallowIndent\<close> has one leading space, no
  marker, and the indentation level \<open>0 \<times> 2 + 1 div 2 = 0\<close>; the base level is 1 after the
  heading, so that the node would have level 1; the returned tree is the root alone. With
  two leading spaces (\<open>exampleIndent\<close>) the line is a node, at level \<open>1 + 1\<close>. The source
  guards the call of processNode with \<^verbatim>\<open>indentLevel > 0\<close>; the same guard gives the
  root two children on the input of the repository's test, which expects one.
\<close>

theorem parseMarkdown_indent_zero:
  "splitOn 10 exampleShallowIndent = [[35, 32, 84], [32, 120]]
   \<and> isBareText [32, 120]
   \<and> leadingWhitespace [32, 120] = [32]
   \<and> calculateIndentLevel [32, 120] = 0
   \<and> headingLabel [35, 32, 84] = Some (1, [84])
   \<and> parseMarkdown exampleShallowIndent = Some (INodeData root_id [84] 0 [] (Some True))
   \<and> parseMarkdown exampleIndent
       = Some (INodeData root_id [84] 0
                 [INodeData (node_prefix @ [48]) [97] 2 [] (Some False)] (Some True))
   \<and> map_option (\<lambda>tree. length (n_children tree)) (parseMarkdown exampleTestOutline) = Some 2"
proof -
  have "map_option (\<lambda>tree. length (n_children tree)) (parseMarkdown exampleTestOutline) = Some 2"
    by (simp add: exampleTestOutline_run)
  then show ?thesis
    by (simp add: exampleShallowIndent_def exampleIndent_def parser_eval)
qed

section \<open>Properties of the outline parser: no exception, no heading\<close>

lemma not_heading_label: "\<not> isHeadingLine l \<Longrightarrow> headingLabel l = None"
  using headingLabel_isHeadingLine by (cases "headingLabel l") auto

lemma parseLines_ignored:
  assumes "\<forall>l \<in> set ls. headingLabel l = None \<and> listLabel l = None
             \<and> \<not> (isBareText l \<and> 0 < calculateIndentLevel l)"
  shows "parseLines st ls = Some st"
  using assms
proof (induction ls)
  case Nil
  show ?case by simp
next
  case (Cons a ls)
  then have "parseLine st a = Some st" by (simp add: parseLine_ignored)
  then show ?case using Cons by simp
qed

lemma treeOf_leaf: "h_children (h ! i) = [] \<Longrightarrow>
  treeOf h i = INodeData (h_id (h ! i)) (h_text (h ! i)) (int (h_level (h ! i))) []
                 (Some (h_expanded (h ! i)))"
  by (subst treeOf.simps) simp

text \<open>
  In an outline without headings a list line without indentation, and a line of bare text
  at indentation level 1, becomes a child of the root.
\<close>

lemma levelOne_item_child:
  assumes nohead: "\<forall>l \<in> set (splitOn 10 markdown). \<not> isHeadingLine l"
    and n: "n < length (splitOn 10 markdown)"
    and item: "(listLabel (splitOn 10 markdown ! n) \<noteq> None
                 \<and> calculateIndentLevel (splitOn 10 markdown ! n) = 0)
               \<or> (isBareText (splitOn 10 markdown ! n)
                   \<and> calculateIndentLevel (splitOn 10 markdown ! n) = 1)"
    and fin: "parseMarkdownRun markdown = Some fin"
  shows "\<exists>k. createdAt markdown n k \<and> k \<in> set (h_children (heap fin ! 0))"
proof -
  let ?ls = "splitOn 10 markdown"
  let ?line = "?ls ! n"
  have split: "?ls = take n ?ls @ ?line # drop (Suc n) ?ls"
    using n by (simp add: id_take_nth_drop)
  have nl: "\<forall>l \<in> set (take n ?ls). headingLabel l = None"
    using nohead not_heading_label by (meson in_set_takeD)
  from run_split [OF split] fin obtain st st1 where
    r: "parseLines (initialState ?ls) (take n ?ls) = Some st" "parserInv st"
       "parseLine st ?line = Some st1" "parserInv st1" "continues (heap st1) (heap fin)"
       "(\<forall>l \<in> set (take n ?ls). headingLabel l = None) \<longrightarrow> currentBaseLevel st = 0"
    by auto
  have base: "currentBaseLevel st = 0" using r(6) nl by simp
  obtain t where emit: "parseLine st ?line = emitNode st t 1"
  proof (cases "listLabel ?line")
    case (Some t)
    then have "calculateIndentLevel ?line = 0"
      using item isBareText_labels by auto
    then have "parseLine st ?line = emitNode st t 1"
      using parseLine_list [OF Some, of st] base by simp
    then show ?thesis using that by blast
  next
    case None
    then have b: "isBareText ?line" "calculateIndentLevel ?line = 1"
      using item by auto
    then have "parseLine st ?line = emitNode st (trim ?line) 1"
      using parseLine_bare [of ?line st] base by simp
    then show ?thesis using that by blast
  qed
  from emitNode_step [OF r(2), of 1 t] emit r(3) have
    e: "length (heap st1) = Suc (length (heap st))" "h_level (heap st1 ! length (heap st)) = 1"
    by auto
  let ?k = "length (heap st)"
  have k1: "1 \<le> ?k" using parserInv_heap_nonempty [OF r(2)] by linarith
  have "topLevelInv (heap st1)" using r(4) unfolding parserInv_def by simp
  then have "?k \<in> set (h_children (heap st1 ! 0))"
    using k1 e unfolding topLevelInv_def by simp
  moreover have "prefix (h_children (heap st1 ! 0)) (h_children (heap fin ! 0))"
    using continues_nth(5) [OF r(5) parserInv_heap_nonempty [OF r(4)]] .
  ultimately have "?k \<in> set (h_children (heap fin ! 0))"
    using set_mono_prefix by blast
  moreover have "createdAt markdown n ?k"
    using createdAt_split [OF split r(1) r(3) e(1)] n by simp
  ultimately show ?thesis by blast
qed

text \<open>
  parseMarkdown returns a tree for every input. When no line is a heading line, the root
  has the default label, its children are the readouts of the root object's list, and
  every object of level 1 is in that list. When no line is a heading with a label, a list
  line with a label or bare text of an indentation level above 0, the result is the
  default tree of one node; so it is for the empty string.
\<close>

lemma parseMarkdown_returns:
  "(\<exists>tree. parseMarkdown markdown = Some tree)
   \<and> ((\<forall>l \<in> set (splitOn 10 markdown). \<not> isHeadingLine l) \<longrightarrow>
        (\<exists>fin. parseMarkdownRun markdown = Some fin
           \<and> h_text (heap fin ! 0) = defaultRootText
           \<and> map_option n_text (parseMarkdown markdown) = Some defaultRootText
           \<and> map_option n_children (parseMarkdown markdown)
               = Some (map (treeOf (heap fin)) (h_children (heap fin ! 0)))
           \<and> (\<forall>k. 1 \<le> k \<and> k < length (heap fin) \<and> h_level (heap fin ! k) = 1
                  \<longrightarrow> k \<in> set (h_children (heap fin ! 0)))))
   \<and> ((\<forall>l \<in> set (splitOn 10 markdown). headingLabel l = None \<and> listLabel l = None
           \<and> \<not> (isBareText l \<and> 0 < calculateIndentLevel l))
        \<longrightarrow> parseMarkdown markdown = Some (INodeData root_id defaultRootText 0 [] (Some True)))
   \<and> parseMarkdown [] = Some (INodeData root_id defaultRootText 0 [] (Some True))"
proof (intro conjI impI)
  let ?ls = "splitOn 10 markdown"
  from parseMarkdownRun_returns [of markdown] obtain fin where
    f: "parseMarkdownRun markdown = Some fin" "parserInv fin"
       "continues (heap (initialState ?ls)) (heap fin)" by blast
  show "\<exists>tree. parseMarkdown markdown = Some tree"
    using f(1) by (simp add: parseMarkdown_def)
  show "parseMarkdown [] = Some (INodeData root_id defaultRootText 0 [] (Some True))"
    by (simp add: parser_eval)
  {
    assume nohead: "\<forall>l \<in> set ?ls. \<not> isHeadingLine l"
    then have "\<forall>l \<in> set ?ls. headingLabel l = None" using not_heading_label by blast
    then have "findRootText ?ls = None" by (rule findRootText_none)
    then have "h_text (heap (initialState ?ls) ! 0) = defaultRootText"
      by (simp add: initial_root_text)
    moreover have "0 < length (heap (initialState ?ls))" by (simp add: initialState_def Let_def)
    ultimately have t: "h_text (heap fin ! 0) = defaultRootText"
      using continues_nth(2) [OF f(3)] by simp
    have t2: "map_option n_text (parseMarkdown markdown) = Some defaultRootText"
      using f(1) t by (simp add: parseMarkdown_def treeOf_root_fields)
    have hi: "heapInv (heap fin)" using f(2) unfolding parserInv_def by simp
    have c: "map_option n_children (parseMarkdown markdown)
               = Some (map (treeOf (heap fin)) (h_children (heap fin ! 0)))"
      using f(1) treeOf_children [OF hi parserInv_heap_nonempty [OF f(2)]]
      by (simp add: parseMarkdown_def)
    have lv: "\<forall>k. 1 \<le> k \<and> k < length (heap fin) \<and> h_level (heap fin ! k) = 1
                  \<longrightarrow> k \<in> set (h_children (heap fin ! 0))"
      using f(2) unfolding parserInv_def topLevelInv_def by simp
    show "\<exists>fin. parseMarkdownRun markdown = Some fin
           \<and> h_text (heap fin ! 0) = defaultRootText
           \<and> map_option n_text (parseMarkdown markdown) = Some defaultRootText
           \<and> map_option n_children (parseMarkdown markdown)
               = Some (map (treeOf (heap fin)) (h_children (heap fin ! 0)))
           \<and> (\<forall>k. 1 \<le> k \<and> k < length (heap fin) \<and> h_level (heap fin ! k) = 1
                  \<longrightarrow> k \<in> set (h_children (heap fin ! 0)))"
      using f(1) t t2 c lv by blast
  }
  {
    assume ign: "\<forall>l \<in> set ?ls. headingLabel l = None \<and> listLabel l = None
           \<and> \<not> (isBareText l \<and> 0 < calculateIndentLevel l)"
    then have "parseLines (initialState ?ls) ?ls = Some (initialState ?ls)"
      by (rule parseLines_ignored)
    moreover have "findRootText ?ls = None" using ign by (intro findRootText_none) simp
    ultimately show "parseMarkdown markdown
                     = Some (INodeData root_id defaultRootText 0 [] (Some True))"
      by (simp add: parseMarkdown_def parseMarkdownRun_def initialState_def Let_def treeOf_leaf)
  }
qed

text \<open>
  C8: parseMarkdown throws for no input, and when no line is a heading line the root has
  the default label and every top-level list or indentation item is a child of the root;
  the empty string gives the root alone. The first and the last hold
  (\<open>parseMarkdown_returns\<close>). The middle one does not hold for a line of bare text whose
  indentation level is 0: \<open>exampleOneSpace\<close>, one line with one leading space, gives the root
  alone, where two leading spaces (\<open>exampleTwoSpaces\<close>) and a list marker
  (\<open>exampleBullets\<close>) give a child of the root. In the input of the repository's test
  \<^verbatim>\<open>should handle indented text\<close> the first line has no indentation and creates no
  node: the root gets two children, where the test expects one child with two children.
\<close>

theorem parseMarkdown_headless_items:
  "parseMarkdown [] = Some (INodeData root_id defaultRootText 0 [] (Some True))
   \<and> isBareText exampleOneSpace \<and> leadingWhitespace exampleOneSpace = [32]
   \<and> calculateIndentLevel exampleOneSpace = 0
   \<and> parseMarkdown exampleOneSpace = Some (INodeData root_id defaultRootText 0 [] (Some True))
   \<and> parseMarkdown exampleTwoSpaces
       = Some (INodeData root_id defaultRootText 0
                 [INodeData (node_prefix @ [48]) [120] 1 [] (Some False)] (Some True))
   \<and> parseMarkdown exampleBullets
       = Some (INodeData root_id defaultRootText 0
                 [INodeData (node_prefix @ [48]) [88] 1
                    [INodeData (node_prefix @ [49]) [89] 2 [] (Some False)] (Some False)]
                 (Some True))
   \<and> parseMarkdown exampleTestOutline
       = Some (INodeData root_id defaultRootText 0
                 [INodeData (node_prefix @ [48]) [0x5b50, 0x4e3b, 0x9898, 49] 1
                    [INodeData (node_prefix @ [49]) [0x5b50, 0x5b50, 0x4e3b, 0x9898, 49] 2 []
                       (Some False)]
                    (Some False),
                  INodeData (node_prefix @ [50]) [0x5b50, 0x4e3b, 0x9898, 50] 1 [] (Some False)]
                 (Some True))"
  using exampleTestOutline_run
  by (simp add: exampleOneSpace_def exampleTwoSpaces_def exampleBullets_def parser_eval)

section \<open>Properties of the layout engine: what a branch does to the map\<close>

lemma allIds_simps [simp]:
  "allIds [] = {}"
  "allIds (INodeData i t l cs e # ns) = insert i (allIds cs \<union> allIds ns)"
  by (auto simp: allIds_def)

lemma allIds_Cons: "allIds (n # ns) = allIds [n] \<union> allIds ns"
  by (auto simp: allIds_def)

lemma visibleIds_simps [simp]:
  "visibleIds [] = {}"
  "visibleIds (INodeData i t l cs e # ns)
   = insert i ((if truthy e then visibleIds cs else {}) \<union> visibleIds ns)"
  by (auto simp: visibleIds_def)

lemma visibleIds_Cons: "visibleIds (n # ns) = visibleIds [n] \<union> visibleIds ns"
  by (auto simp: visibleIds_def)

lemma visibleIds_subset_allIds: "visibleIds ns \<subseteq> allIds ns"
proof -
  have "set (getVisibleNodes n) \<subseteq> set (getAllNodes n)" for n
    by (induction n rule: getAllNodes.induct) auto
  then show ?thesis unfolding visibleIds_def allIds_def by fastforce
qed

lemma heights_defined:
  "allIds nodes \<subseteq> dom dimensions
     \<Longrightarrow> \<exists>h. calculateSubtreeHeight nodes dimensions verticalSpacing = Some h"
  "allIds nodes \<subseteq> dom dimensions
     \<Longrightarrow> \<exists>h. sumBranchHeights nodes dimensions verticalSpacing totalHeight = Some h"
  "allIds [node] \<subseteq> dom dimensions
     \<Longrightarrow> \<exists>h. calculateNodeBranchHeight node dimensions verticalSpacing = Some h"
proof (induction nodes dimensions verticalSpacing and nodes dimensions verticalSpacing totalHeight
         and node dimensions verticalSpacing
       rule: calculateSubtreeHeight_sumBranchHeights_calculateNodeBranchHeight.induct)
  case (1 nodes dimensions verticalSpacing)
  then show ?case by (cases "nodes = []") auto
next
  case (2 dimensions verticalSpacing totalHeight)
  show ?case by simp
next
  case (3 node nodes dimensions verticalSpacing totalHeight)
  from 3(3) have a: "allIds [node] \<subseteq> dom dimensions" "allIds nodes \<subseteq> dom dimensions"
    by (simp_all add: allIds_Cons [of node nodes])
  from 3(1) [OF a(1)] obtain h where
    h: "calculateNodeBranchHeight node dimensions verticalSpacing = Some h" by blast
  from 3(2) [OF h a(2)] show ?case using h by simp
next
  case (4 i t l cs e dimensions verticalSpacing)
  from 4(2) obtain d where d: "dimensions i = Some d" by auto
  from 4(2) have c: "allIds cs \<subseteq> dom dimensions" by simp
  show ?case
  proof (cases "truthy e \<and> length cs > 0")
    case True
    from 4(1) [OF d refl refl True c] show ?thesis using d True by (auto simp: Let_def)
  next
    case False
    then show ?thesis using d by (auto simp: Let_def)
  qed
qed

lemma visibleIds_single: "visibleIds [n] = insert (n_id n) (visibleBelow n)"
  by (cases n) (simp add: visibleBelow_def)

lemma allIds_single: "allIds [n] = insert (n_id n) (allIds (n_children n))"
  by (cases n) simp

text \<open>
  The placement of a branch returns when every id has a dimension; it sets exactly the
  ids of the visible nodes below the parent and leaves every other entry as it was.
\<close>

lemma layout_effect:
  "allIds [parent] \<subseteq> dom dimensions \<Longrightarrow>
     \<exists>positions'. layoutChildBranch parent positions dimensions currentX currentY direction
                     horizontalSpacing verticalSpacing = Some positions'
       \<and> dom positions' = dom positions \<union> visibleBelow parent
       \<and> (\<forall>k. k \<notin> visibleBelow parent \<longrightarrow> positions' k = positions k)
       \<and> (keyed positions \<longrightarrow> keyed positions')"
  "allIds nodes \<subseteq> dom dimensions \<Longrightarrow>
     \<exists>positions'. layoutChildren nodes parentId positions dimensions anchorX sign yOffset direction
                     horizontalSpacing verticalSpacing = Some positions'
       \<and> dom positions' = dom positions \<union> visibleIds nodes
       \<and> (\<forall>k. k \<notin> visibleIds nodes \<longrightarrow> positions' k = positions k)
       \<and> (keyed positions \<longrightarrow> keyed positions')"
proof (induction parent positions dimensions currentX currentY direction
           horizontalSpacing verticalSpacing
         and nodes parentId positions dimensions anchorX sign yOffset direction
           horizontalSpacing verticalSpacing
       rule: layoutChildBranch_layoutChildren.induct)
  case (1 i t l cs e positions dimensions currentX currentY direction hs vs)
  show ?case
  proof (cases "\<not> truthy e \<or> length cs = 0")
    case True
    then show ?thesis by (auto simp: visibleBelow_def)
  next
    case False
    from 1(2) obtain d where d: "dimensions i = Some d" by auto
    from 1(2) have c: "allIds cs \<subseteq> dom dimensions" by simp
    from heights_defined(1) [OF c] obtain h where
      h: "calculateSubtreeHeight cs dimensions vs = Some h" by blast
    from 1(1) [OF False refl d refl refl refl h refl c]
    show ?thesis using False d h by (simp add: visibleBelow_def Let_def)
  qed
next
  case (2 parentId positions dimensions anchorX sign yOffset direction hs vs)
  show ?case by simp
next
  case (3 child rest parentId positions dimensions anchorX sign yOffset direction hs vs)
  from 3(3) have a: "allIds [child] \<subseteq> dom dimensions" "allIds rest \<subseteq> dom dimensions"
    by (simp_all add: allIds_Cons [of child rest])
  from a(1) obtain d where d: "dimensions (n_id child) = Some d"
    by (auto simp: allIds_single)
  from heights_defined(3) [OF a(1)] obtain bh where
    bh: "calculateNodeBranchHeight child dimensions vs = Some bh" by blast
  let ?y = "yOffset + bh / 2"
  let ?x = "anchorX + sign * (d_width d / 2)"
  let ?p1 = "positions(n_id child \<mapsto>
                      \<lparr> p_id = n_id child, p_text = n_text child, p_x = ?x, p_y = ?y,
                        p_width = d_width d, p_height = d_height d,
                        p_level = n_level child,
                        p_hasChildren = (length (n_children child) > 0),
                        p_expanded = truthy (n_expanded child),
                        p_parentId = Some parentId \<rparr>)"
  let ?step = "if truthy (n_expanded child) \<and> length (n_children child) > 0
               then layoutChildBranch child ?p1 dimensions ?x ?y direction hs vs
               else Some ?p1"
  have k1: "keyed positions \<longrightarrow> keyed ?p1" by (simp add: keyed_def)
  have "\<exists>p2. ?step = Some p2 \<and> dom p2 = dom ?p1 \<union> visibleBelow child
          \<and> (\<forall>k. k \<notin> visibleBelow child \<longrightarrow> p2 k = ?p1 k)
          \<and> (keyed ?p1 \<longrightarrow> keyed p2)"
  proof (cases "truthy (n_expanded child) \<and> length (n_children child) > 0")
    case True
    show ?thesis unfolding if_P [OF True]
      by (rule 3(1) [OF d bh refl refl refl True a(1)])
  next
    case False
    then have "visibleBelow child = {}" by (auto simp: visibleBelow_def)
    then show ?thesis unfolding if_not_P [OF False] by blast
  qed
  then obtain p2 where p2: "?step = Some p2" "dom p2 = dom ?p1 \<union> visibleBelow child"
    "\<forall>k. k \<notin> visibleBelow child \<longrightarrow> p2 k = ?p1 k"
    "keyed ?p1 \<longrightarrow> keyed p2" by blast
  from 3(2) [OF d bh refl refl refl p2(1) a(2)] obtain p3 where
    p3: "layoutChildren rest parentId p2 dimensions anchorX sign (yOffset + bh + vs) direction hs vs
         = Some p3" "dom p3 = dom p2 \<union> visibleIds rest"
        "\<forall>k. k \<notin> visibleIds rest \<longrightarrow> p3 k = p2 k"
        "keyed p2 \<longrightarrow> keyed p3" by blast
  have res: "layoutChildren (child # rest) parentId positions dimensions anchorX sign yOffset
               direction hs vs = Some p3"
    by (simp only: layoutChildren.simps d bh option.case Let_def p2(1) p3(1))
  have v: "visibleIds (child # rest) = insert (n_id child) (visibleBelow child) \<union> visibleIds rest"
    using visibleIds_Cons [of child rest] by (simp add: visibleIds_single)
  have dm: "dom p3 = dom positions \<union> visibleIds (child # rest)"
    using p3(2) p2(2) v by auto
  have fr: "\<forall>k. k \<notin> visibleIds (child # rest) \<longrightarrow> p3 k = positions k"
    using p3(3) p2(3) v by auto
  have ky: "keyed positions \<longrightarrow> keyed p3" using k1 p2(4) p3(4) by blast
  show ?case using res dm fr ky by blast
qed

lemma distinctIds_Cons:
  "distinctIds (n # ns) \<longleftrightarrow> distinctIds [n] \<and> distinctIds ns \<and> allIds [n] \<inter> allIds ns = {}"
  by (auto simp: distinctIds_def allIds_def)

lemma distinctIds_single:
  "distinctIds [n] \<longleftrightarrow> n_id n \<notin> allIds (n_children n) \<and> distinctIds (n_children n)"
  by (cases n) (auto simp: distinctIds_def allIds_def)

lemma visibleBelow_subset: "visibleBelow n \<subseteq> allIds (n_children n)"
  using visibleIds_subset_allIds by (auto simp: visibleBelow_def)

lemma allIds_member: "c \<in> set cs \<Longrightarrow> allIds [c] \<subseteq> allIds cs"
  by (auto simp: allIds_def)

lemma branchEdges_ids:
  "edge \<in> set (branchEdges p) \<Longrightarrow> n_id (fst edge) \<in> allIds [p] \<and> n_id (snd edge) \<in> allIds [p]"
proof (induction p arbitrary: edge rule: branchEdges.induct)
  case (1 i t l cs e)
  from 1(2) obtain c where c: "truthy e" "c \<in> set cs"
    "edge = (INodeData i t l cs e, c) \<or> edge \<in> set (branchEdges c)"
    by (auto split: if_splits)
  have sub: "allIds [c] \<subseteq> allIds cs" using allIds_member [OF c(2)] .
  from c(3) show ?case
  proof
    assume "edge = (INodeData i t l cs e, c)"
    moreover have "n_id c \<in> allIds [c]" by (simp add: allIds_single)
    ultimately show ?thesis using sub by auto
  next
    assume "edge \<in> set (branchEdges c)"
    then have "n_id (fst edge) \<in> allIds [c] \<and> n_id (snd edge) \<in> allIds [c]"
      using 1(1) [OF c(1) c(2)] by simp
    then show ?thesis using sub by auto
  qed
qed

lemma anchored_cong:
  assumes "anchored side hs pos edge"
    and "pos' (n_id (fst edge)) = pos (n_id (fst edge))"
    and "pos' (n_id (snd edge)) = pos (n_id (snd edge))"
  shows "anchored side hs pos' edge"
  using assms unfolding anchored_def by (simp split: option.splits)

lemma anchoredI:
  "pos (n_id (fst edge)) = Some pp \<Longrightarrow> pos (n_id (snd edge)) = Some pc
   \<Longrightarrow> alignedTo side (anchorLine side hs (fst edge) pp) pc \<Longrightarrow> anchored side hs pos edge"
  unfolding anchored_def by simp

text \<open>
  Every pair placed by a branch is anchored, when the ids are distinct and the parent's
  own entry has the x the branch was called with and the parent's estimated width.
\<close>

lemma layout_anchored_aux:
  "\<forall>positions' pp pd.
     layoutChildBranch parent positions dimensions currentX currentY direction
        horizontalSpacing verticalSpacing = Some positions'
     \<longrightarrow> allIds [parent] \<subseteq> dom dimensions \<longrightarrow> distinctIds [parent]
     \<longrightarrow> positions (n_id parent) = Some pp \<longrightarrow> p_x pp = currentX
     \<longrightarrow> dimensions (n_id parent) = Some pd \<longrightarrow> p_width pp = d_width pd
     \<longrightarrow> (\<forall>edge \<in> set (branchEdges parent). anchored direction horizontalSpacing positions' edge)"
  "\<forall>positions'.
     layoutChildren nodes parentId positions dimensions anchorX sign yOffset direction
        horizontalSpacing verticalSpacing = Some positions'
     \<longrightarrow> allIds nodes \<subseteq> dom dimensions \<longrightarrow> distinctIds nodes
     \<longrightarrow> sign = (if direction = DirLeft then - 1 else 1)
     \<longrightarrow> (\<forall>c \<in> set nodes. \<exists>pc. positions' (n_id c) = Some pc \<and> alignedTo direction anchorX pc)
         \<and> (\<forall>c \<in> set nodes. \<forall>edge \<in> set (branchEdges c).
               anchored direction horizontalSpacing positions' edge)"
proof (induction parent positions dimensions currentX currentY direction
           horizontalSpacing verticalSpacing
         and nodes parentId positions dimensions anchorX sign yOffset direction
           horizontalSpacing verticalSpacing
       rule: layoutChildBranch_layoutChildren.induct)
  case (1 i t l cs e positions dimensions currentX currentY direction hs vs)
  let ?p = "INodeData i t l cs e"
  show ?case
  proof (intro allI impI)
    fix positions' pp pd
    assume A: "layoutChildBranch ?p positions dimensions currentX currentY direction hs vs
               = Some positions'"
      and B: "allIds [?p] \<subseteq> dom dimensions" and C: "distinctIds [?p]"
      and D: "positions (n_id ?p) = Some pp" and E: "p_x pp = currentX"
      and F: "dimensions (n_id ?p) = Some pd" and G: "p_width pp = d_width pd"
    show "\<forall>edge \<in> set (branchEdges ?p). anchored direction hs positions' edge"
  proof (cases "\<not> truthy e \<or> length cs = 0")
    case True
    then have "branchEdges ?p = []" by auto
    then show ?thesis by simp
  next
    case False
    have d: "dimensions i = Some pd" using F by simp
    from B have c: "allIds cs \<subseteq> dom dimensions" by simp
    from heights_defined(1) [OF c] obtain h where
      h: "calculateSubtreeHeight cs dimensions vs = Some h" by blast
    let ?sign = "if direction = DirLeft then - 1 else (1::rat)"
    let ?m = "if l \<ge> 2 then 1 else (8 / 10 :: rat)"
    let ?anchorX = "currentX + ?sign * (d_width pd / 2 + hs * ?m * (6 / 10))"
    have run: "layoutChildren cs i positions dimensions ?anchorX ?sign (currentY - h / 2)
                 direction hs vs = Some positions'"
      using A False d h by (simp add: Let_def)
    have dist: "i \<notin> allIds cs" "distinctIds cs"
      using C by (simp_all add: distinctIds_single)
    from 1 [OF False refl d refl refl refl h refl] run c dist(2)
    have kids: "\<forall>c \<in> set cs. \<exists>pc. positions' (n_id c) = Some pc \<and> alignedTo direction ?anchorX pc"
      and below: "\<forall>c \<in> set cs. \<forall>edge \<in> set (branchEdges c). anchored direction hs positions' edge"
      by blast+
    from layout_effect(2) [OF c, of i positions ?anchorX ?sign "currentY - h / 2" direction hs vs] run
    have frame: "\<forall>k. k \<notin> visibleIds cs \<longrightarrow> positions' k = positions k" by auto
    have "i \<notin> visibleIds cs" using dist(1) visibleIds_subset_allIds by blast
    then have own: "positions' i = Some pp" using frame D by simp
    have line: "anchorLine direction hs ?p pp = ?anchorX"
      using E G by (simp add: anchorLine_def Let_def)
    have "anchored direction hs positions' edge" if "edge \<in> set (branchEdges ?p)" for edge
    proof -
      from that False obtain c where c: "c \<in> set cs"
        "edge = (?p, c) \<or> edge \<in> set (branchEdges c)" by (auto split: if_splits)
      from c(2) show ?thesis
      proof
        assume e: "edge = (?p, c)"
        from kids c(1) obtain pc where
          pc: "positions' (n_id c) = Some pc" "alignedTo direction ?anchorX pc" by blast
        have al: "alignedTo direction (anchorLine direction hs ?p pp) pc"
          unfolding line by (rule pc(2))
        show ?thesis
          by (rule anchoredI [of positions' edge pp pc]) (simp_all add: e own pc(1) al)
      next
        assume "edge \<in> set (branchEdges c)"
        then show ?thesis using below c(1) by blast
      qed
    qed
    then show ?thesis by blast
  qed
  qed
next
  case (2 parentId positions dimensions anchorX sign yOffset direction hs vs)
  show ?case by simp
next
  case (3 child rest parentId positions dimensions anchorX sign yOffset direction hs vs)
  show ?case
  proof (intro allI impI)
  fix positions'
  assume A: "layoutChildren (child # rest) parentId positions dimensions anchorX sign yOffset
               direction hs vs = Some positions'"
    and B: "allIds (child # rest) \<subseteq> dom dimensions" and C: "distinctIds (child # rest)"
    and S: "sign = (if direction = DirLeft then - 1 else 1)"
  from B have a: "allIds [child] \<subseteq> dom dimensions" "allIds rest \<subseteq> dom dimensions"
    by (simp_all add: allIds_Cons [of child rest])
  from C have dist: "distinctIds [child]" "distinctIds rest" "allIds [child] \<inter> allIds rest = {}"
    by (simp_all add: distinctIds_Cons [of child rest])
  from a(1) obtain d where d: "dimensions (n_id child) = Some d"
    by (auto simp: allIds_single)
  from heights_defined(3) [OF a(1)] obtain bh where
    bh: "calculateNodeBranchHeight child dimensions vs = Some bh" by blast
  let ?y = "yOffset + bh / 2"
  let ?x = "anchorX + sign * (d_width d / 2)"
  let ?E = "\<lparr> p_id = n_id child, p_text = n_text child, p_x = ?x, p_y = ?y,
                        p_width = d_width d, p_height = d_height d,
                        p_level = n_level child,
                        p_hasChildren = (length (n_children child) > 0),
                        p_expanded = truthy (n_expanded child),
                        p_parentId = Some parentId \<rparr>"
  let ?p1 = "positions(n_id child \<mapsto> ?E)"
  let ?step = "if truthy (n_expanded child) \<and> length (n_children child) > 0
               then layoutChildBranch child ?p1 dimensions ?x ?y direction hs vs
               else Some ?p1"
  have e1: "?p1 (n_id child) = Some ?E" by simp
  have "\<exists>p2. ?step = Some p2
          \<and> (\<forall>k. k \<notin> visibleBelow child \<longrightarrow> p2 k = ?p1 k)
          \<and> (\<forall>edge \<in> set (branchEdges child). anchored direction hs p2 edge)"
  proof (cases "truthy (n_expanded child) \<and> length (n_children child) > 0")
    case True
    from layout_effect(1) [OF a(1), of ?p1 ?x ?y direction hs vs] obtain p2 where
      p2: "layoutChildBranch child ?p1 dimensions ?x ?y direction hs vs = Some p2"
          "\<forall>k. k \<notin> visibleBelow child \<longrightarrow> p2 k = ?p1 k" by blast
    have ex: "p_x ?E = ?x" and ew: "p_width ?E = d_width d" by simp_all
    have "\<forall>edge \<in> set (branchEdges child). anchored direction hs p2 edge"
      using 3(1) [OF d bh refl refl refl True, rule_format, OF p2(1) a(1) dist(1) e1 ex d ew]
      by blast
    then show ?thesis unfolding if_P [OF True] using p2 by blast
  next
    case False
    then have "branchEdges child = []" by (cases child) auto
    then show ?thesis unfolding if_not_P [OF False] by simp
  qed
  then obtain p2 where p2: "?step = Some p2"
    "\<forall>k. k \<notin> visibleBelow child \<longrightarrow> p2 k = ?p1 k"
    "\<forall>edge \<in> set (branchEdges child). anchored direction hs p2 edge" by blast
  from layout_effect(2) [OF a(2), of parentId p2 anchorX sign "yOffset + bh + vs" direction hs vs]
  obtain p3 where
    p3: "layoutChildren rest parentId p2 dimensions anchorX sign (yOffset + bh + vs) direction hs vs
         = Some p3"
        "\<forall>k. k \<notin> visibleIds rest \<longrightarrow> p3 k = p2 k" by blast
  have "layoutChildren (child # rest) parentId positions dimensions anchorX sign yOffset
               direction hs vs = Some p3"
    by (simp only: layoutChildren.simps d bh option.case Let_def p2(1) p3(1))
  then have eq: "positions' = p3" using A by simp
  from 3(2) [OF d bh refl refl refl p2(1), rule_format, OF p3(1) a(2) dist(2) S]
  have restk: "\<forall>c \<in> set rest. \<exists>pc. p3 (n_id c) = Some pc \<and> alignedTo direction anchorX pc"
    and restb: "\<forall>c \<in> set rest. \<forall>edge \<in> set (branchEdges c). anchored direction hs p3 edge"
    by blast+
  have keep: "p3 k = p2 k" if "k \<in> allIds [child]" for k
  proof -
    have "k \<notin> allIds rest" using that dist(3) by blast
    then have "k \<notin> visibleIds rest" using visibleIds_subset_allIds by blast
    then show ?thesis using p3(2) by simp
  qed
  have self: "n_id child \<in> allIds [child]" by (simp add: allIds_single)
  have "n_id child \<notin> visibleBelow child"
    using dist(1) visibleBelow_subset by (auto simp: distinctIds_single)
  then have "p2 (n_id child) = Some ?E" using p2(2) by simp
  then have own: "p3 (n_id child) = Some ?E" using keep [OF self] by simp
  have ne: "alignedTo direction anchorX ?E"
    using S by (simp add: alignedTo_def)
  have childb: "\<forall>edge \<in> set (branchEdges child). anchored direction hs p3 edge"
  proof
    fix edge assume e: "edge \<in> set (branchEdges child)"
    have "p3 (n_id (fst edge)) = p2 (n_id (fst edge))" "p3 (n_id (snd edge)) = p2 (n_id (snd edge))"
      using branchEdges_ids [OF e] keep by simp_all
    then show "anchored direction hs p3 edge" using anchored_cong p2(3) e by blast
  qed
  show "(\<forall>c \<in> set (child # rest). \<exists>pc. positions' (n_id c) = Some pc
            \<and> alignedTo direction anchorX pc)
         \<and> (\<forall>c \<in> set (child # rest). \<forall>edge \<in> set (branchEdges c).
               anchored direction hs positions' edge)"
    unfolding eq using own ne restk restb childb by auto
  qed
qed

lemma setDimensions_dom: "dom (setDimensions m nodes) = dom m \<union> n_id ` set nodes"
  by (induction m nodes rule: setDimensions.induct) (auto simp del: fun_upd_apply)

lemma calculateNodeDimensions_dom:
  "dom (calculateNodeDimensions (getAllNodes rootNode)) = allIds [rootNode]"
  by (simp add: calculateNodeDimensions_def setDimensions_dom allIds_def)

lemma allIds_append: "allIds (xs @ ys) = allIds xs \<union> allIds ys"
  by (auto simp: allIds_def)

lemma visibleIds_append: "visibleIds (xs @ ys) = visibleIds xs \<union> visibleIds ys"
  by (auto simp: visibleIds_def)

lemma distinctIds_append:
  "distinctIds (xs @ ys) \<longleftrightarrow> distinctIds xs \<and> distinctIds ys \<and> allIds xs \<inter> allIds ys = {}"
  by (auto simp: distinctIds_def allIds_def)

text \<open>What calculateBothDirectionLayout returns, from the empty map.\<close>

lemma both_effect:
  fixes rootNode :: INodeData and hs vs co :: number
  assumes dims: "allIds [rootNode] \<subseteq> dom dimensions"
  defines "cs \<equiv> n_children rootNode"
  defines "k \<equiv> (length (n_children rootNode) + 1) div 2"
  obtains pos rootDim p2 y1 y2 where
    "calculateBothDirectionLayout rootNode Map.empty dimensions hs vs co = Some pos"
    "dimensions (n_id rootNode) = Some rootDim"
    "layoutChildren (take k cs) (n_id rootNode)
       (Map.empty(n_id rootNode \<mapsto> rootPosition rootNode rootDim co)) dimensions
       (co - d_width rootDim / 2 - hs * (1 / 2)) (- 1) y1 DirLeft hs vs = Some p2"
    "layoutChildren (drop k cs) (n_id rootNode) p2 dimensions
       (co + d_width rootDim / 2 + hs * (1 / 2)) 1 y2 DirRight hs vs = Some pos"
proof -
  from dims obtain rootDim where rd: "dimensions (n_id rootNode) = Some rootDim"
    by (auto simp: allIds_single)
  let ?p1 = "Map.empty(n_id rootNode \<mapsto>
                 \<lparr> p_id = n_id rootNode, p_text = n_text rootNode, p_x = co, p_y = 0,
                   p_width = d_width rootDim, p_height = d_height rootDim,
                   p_level = n_level rootNode,
                   p_hasChildren = (length (n_children rootNode) > 0),
                   p_expanded = truthy (n_expanded rootNode), p_parentId = None \<rparr>)"
  have sub: "allIds cs \<subseteq> dom dimensions" using dims unfolding cs_def by (auto simp: allIds_single)
  have "allIds (take k cs @ drop k cs) \<subseteq> dom dimensions" using sub by simp
  then have l: "allIds (take k cs) \<subseteq> dom dimensions" and r: "allIds (drop k cs) \<subseteq> dom dimensions"
    unfolding allIds_append by simp_all
  from heights_defined(1) [OF l] obtain lh where
    lh: "calculateSubtreeHeight (take k cs) dimensions vs = Some lh" by blast
  from heights_defined(1) [OF r] obtain rh where
    rh: "calculateSubtreeHeight (drop k cs) dimensions vs = Some rh" by blast
  let ?la = "co - d_width rootDim / 2 - hs * (1 / 2)"
  let ?ra = "co + d_width rootDim / 2 + hs * (1 / 2)"
  from layout_effect(2) [OF l, of "n_id rootNode" ?p1 ?la "- 1" "- lh / 2" DirLeft hs vs]
  obtain p2 where p2: "layoutChildren (take k cs) (n_id rootNode) ?p1 dimensions ?la (- 1)
                         (- lh / 2) DirLeft hs vs = Some p2" by blast
  from layout_effect(2) [OF r, of "n_id rootNode" p2 ?ra 1 "- rh / 2" DirRight hs vs]
  obtain p3 where p3: "layoutChildren (drop k cs) (n_id rootNode) p2 dimensions ?ra 1
                         (- rh / 2) DirRight hs vs = Some p3" by blast
  have res: "calculateBothDirectionLayout rootNode Map.empty dimensions hs vs co = Some p3"
  proof (cases "cs = []")
    case True
    then have "p2 = ?p1" "p3 = p2" using p2 p3 by simp_all
    then show ?thesis using True rd unfolding cs_def
      by (simp add: calculateBothDirectionLayout_def Let_def)
  next
    case False
    then have kpos: "0 < k" unfolding k_def cs_def by (cases "n_children rootNode") auto
    have lne: "take k cs \<noteq> []" using False kpos by (cases cs) auto
    have left: "(if length (take k cs) > 0 then
                   (case calculateSubtreeHeight (take k cs) dimensions vs of
                      None \<Rightarrow> None
                    | Some leftHeight \<Rightarrow>
                        layoutChildren (take k cs) (n_id rootNode) ?p1 dimensions ?la (- 1)
                          (- leftHeight / 2) DirLeft hs vs)
                 else Some ?p1) = Some p2"
      using lne lh p2 by simp
    have right: "(if length (drop k cs) > 0 then
                   (case calculateSubtreeHeight (drop k cs) dimensions vs of
                      None \<Rightarrow> None
                    | Some rightHeight \<Rightarrow>
                        layoutChildren (drop k cs) (n_id rootNode) p2 dimensions ?ra 1
                          (- rightHeight / 2) DirRight hs vs)
                 else Some p2) = Some p3"
    proof (cases "drop k cs = []")
      case True
      then have "p3 = p2" using p3 by simp
      then show ?thesis using True by simp
    next
      case False
      then show ?thesis using rh p3 by simp
    qed
    have ne: "length (n_children rootNode) \<noteq> 0" using False unfolding cs_def by simp
    show ?thesis
      unfolding calculateBothDirectionLayout_def Let_def rd option.case if_not_P [OF ne]
      using left right unfolding cs_def k_def by simp
  qed
  show ?thesis
    by (rule that [OF res rd p2 [folded rootPosition_def] p3])
qed

text \<open>What calculateSingleDirectionLayout returns, from the empty map.\<close>

lemma single_effect:
  fixes rootNode :: INodeData and hs vs :: number
  assumes dims: "allIds [rootNode] \<subseteq> dom dimensions"
  obtains pos rootDim where
    "calculateSingleDirectionLayout rootNode Map.empty dimensions hs vs direction = Some pos"
    "dimensions (n_id rootNode) = Some rootDim"
    "layoutChildBranch rootNode (Map.empty(n_id rootNode \<mapsto> rootPosition rootNode rootDim 0))
       dimensions 0 0 direction hs vs = Some pos"
proof -
  from dims obtain rootDim where rd: "dimensions (n_id rootNode) = Some rootDim"
    by (auto simp: allIds_single)
  let ?p1 = "Map.empty(n_id rootNode \<mapsto>
                 \<lparr> p_id = n_id rootNode, p_text = n_text rootNode, p_x = 0, p_y = 0,
                   p_width = d_width rootDim, p_height = d_height rootDim,
                   p_level = n_level rootNode,
                   p_hasChildren = (length (n_children rootNode) > 0),
                   p_expanded = truthy (n_expanded rootNode), p_parentId = None \<rparr>)"
  from layout_effect(1) [OF dims, of ?p1 0 0 direction hs vs] obtain pos where
    pos: "layoutChildBranch rootNode ?p1 dimensions 0 0 direction hs vs = Some pos" by blast
  have "calculateSingleDirectionLayout rootNode Map.empty dimensions hs vs direction = Some pos"
    unfolding calculateSingleDirectionLayout_def Let_def rd option.case using pos .
  then show ?thesis
    by (rule that [OF _ rd pos [folded rootPosition_def]])
qed

lemma keyed_root: "keyed (Map.empty(i \<mapsto> q)) \<longleftrightarrow> p_id q = i"
  by (auto simp: keyed_def)

text \<open>
  calculateLayout returns for every tree and every option set. The ids that have a
  position are those of the visible nodes in the single-direction modes; in the
  both-direction mode they are the root and the visible nodes of its children's subtrees,
  whether the root is expanded or not. Every entry is stored under its own id.
\<close>

lemma calculateLayout_dom:
  "\<exists>pos. calculateLayout rootNode options = Some pos \<and> keyed pos
     \<and> dom pos = (if orDefault (o_direction options) DirBoth = DirBoth
                  then insert (n_id rootNode) (visibleIds (n_children rootNode))
                  else visibleIds [rootNode])"
proof -
  let ?dims = "calculateNodeDimensions (getAllNodes rootNode)"
  let ?hs = "orDefault (o_horizontalSpacing options) 140"
  let ?vs = "orDefault (o_verticalSpacing options) 16"
  let ?co = "orDefault (o_centerOffset options) 0"
  let ?dir = "orDefault (o_direction options) DirBoth"
  have dims: "allIds [rootNode] \<subseteq> dom ?dims" by (simp add: calculateNodeDimensions_dom)
  show ?thesis
  proof (cases "?dir = DirBoth")
    case True
    let ?cs = "n_children rootNode"
    let ?k = "(length ?cs + 1) div 2"
    let ?p1 = "\<lambda>rootDim. Map.empty(n_id rootNode \<mapsto> rootPosition rootNode rootDim ?co)"
    from dims obtain pos rootDim p2 y1 y2 where
      b: "calculateBothDirectionLayout rootNode Map.empty ?dims ?hs ?vs ?co = Some pos"
         "?dims (n_id rootNode) = Some rootDim"
         "layoutChildren (take ?k ?cs) (n_id rootNode) (?p1 rootDim) ?dims
            (?co - d_width rootDim / 2 - ?hs * (1 / 2)) (- 1) y1 DirLeft ?hs ?vs = Some p2"
         "layoutChildren (drop ?k ?cs) (n_id rootNode) p2 ?dims
            (?co + d_width rootDim / 2 + ?hs * (1 / 2)) 1 y2 DirRight ?hs ?vs = Some pos"
      by (rule both_effect)
    define p1 where "p1 = ?p1 rootDim"
    note b3 = b(3) [folded p1_def]
    have sub: "allIds (take ?k ?cs @ drop ?k ?cs) \<subseteq> dom ?dims"
      using dims by (auto simp: allIds_single)
    then have l: "allIds (take ?k ?cs) \<subseteq> dom ?dims" and r: "allIds (drop ?k ?cs) \<subseteq> dom ?dims"
      unfolding allIds_append by simp_all
    have k1: "keyed p1" "dom p1 = {n_id rootNode}"
      unfolding p1_def by (simp_all add: keyed_root rootPosition_def)
    from layout_effect(2) [OF l, of "n_id rootNode" p1
        "?co - d_width rootDim / 2 - ?hs * (1 / 2)" "- 1" y1 DirLeft ?hs ?vs] b3
    have e2: "dom p2 = dom p1 \<union> visibleIds (take ?k ?cs)" "keyed p2" using k1(1) by auto
    from layout_effect(2) [OF r, of "n_id rootNode" p2
        "?co + d_width rootDim / 2 + ?hs * (1 / 2)" 1 y2 DirRight ?hs ?vs] b(4)
    have e3: "dom pos = dom p2 \<union> visibleIds (drop ?k ?cs)" "keyed pos" using e2(2) by auto
    have "visibleIds (take ?k ?cs) \<union> visibleIds (drop ?k ?cs) = visibleIds ?cs"
      using visibleIds_append [of "take ?k ?cs" "drop ?k ?cs"] by simp
    then have "dom pos = insert (n_id rootNode) (visibleIds ?cs)"
      using e3(1) e2(1) k1(2) by auto
    moreover have "calculateLayout rootNode options = Some pos"
      using b(1) True by (simp add: calculateLayout_def Let_def)
    ultimately show ?thesis using e3(2) True by simp
  next
    case False
    from dims obtain pos rootDim where
      s: "calculateSingleDirectionLayout rootNode Map.empty ?dims ?hs ?vs ?dir = Some pos"
         "?dims (n_id rootNode) = Some rootDim"
         "layoutChildBranch rootNode (Map.empty(n_id rootNode \<mapsto> rootPosition rootNode rootDim 0))
            ?dims 0 0 ?dir ?hs ?vs = Some pos"
      by (rule single_effect)
    define p1 where "p1 = Map.empty(n_id rootNode \<mapsto> rootPosition rootNode rootDim 0)"
    note s3 = s(3) [folded p1_def]
    have k1: "keyed p1" "dom p1 = {n_id rootNode}"
      unfolding p1_def by (simp_all add: keyed_root rootPosition_def)
    from layout_effect(1) [OF dims, of p1 0 0 ?dir ?hs ?vs] s3
    have e: "dom pos = dom p1 \<union> visibleBelow rootNode" "keyed pos" using k1(1) by auto
    have "dom pos = visibleIds [rootNode]" using e(1) k1(2) by (simp add: visibleIds_single)
    moreover have "calculateLayout rootNode options = Some pos"
      using s(1) False by (simp add: calculateLayout_def Let_def)
    ultimately show ?thesis using e(2) False by simp
  qed
qed

lemma calculateLayout_visible:
  assumes "orDefault (o_direction options) DirBoth \<noteq> DirBoth \<or> truthy (n_expanded rootNode)"
  shows "\<exists>pos. calculateLayout rootNode options = Some pos
           \<and> dom pos = n_id ` set (getVisibleNodes rootNode)"
proof -
  have v: "visibleIds [rootNode] = n_id ` set (getVisibleNodes rootNode)"
    by (simp add: visibleIds_def)
  have "truthy (n_expanded rootNode) \<Longrightarrow>
        insert (n_id rootNode) (visibleIds (n_children rootNode)) = visibleIds [rootNode]"
    by (simp add: visibleIds_single visibleBelow_def)
  then show ?thesis using calculateLayout_dom [of rootNode options] assms v by auto
qed

lemmas layout_eval = calculateLayout_def calculateBothDirectionLayout_def
  calculateSingleDirectionLayout_def calculateNodeDimensions_def orDefault_def
  estimatedWidth_def estimatedHeight_def extraHeight_def getFontConfig_def truthy_def
  exampleOptions_def root_id_def Let_def

section \<open>Properties of the layout engine: which nodes have a position\<close>

text \<open>
  C1 at a collapsed root. The root of \<open>exampleCollapsed\<close> is collapsed, so the root is
  its only visible node. In the both-direction mode, the default, its child \<open>a\<close> has a
  position all the same, \<open>(-130, 0)\<close>; in the left mode it has none. (By
  \<open>calculateLayout_dom\<close> and \<open>calculateLayout_visible\<close> this is the only way the claim
  fails: the ids with a position are those of the visible nodes in the single-direction
  modes, and in the both-direction mode when the root is expanded.)
\<close>

theorem calculateLayout_collapsed_root:
  "getVisibleNodes exampleCollapsed = [exampleCollapsed]
   \<and> map_option (\<lambda>pos. map_option (\<lambda>p. (p_x p, p_y p)) (pos [97]))
        (calculateLayout exampleCollapsed (exampleOptions None None)) = Some (Some (- 130, 0))
   \<and> map_option (\<lambda>pos. map_option (\<lambda>p. (p_x p, p_y p)) (pos [97]))
        (calculateLayout exampleCollapsed (exampleOptions (Some DirLeft) None)) = Some None"
  by (simp add: exampleCollapsed_def layout_eval)

section \<open>Properties of the layout engine: the position of the root\<close>

text \<open>
  C2 as stated fails. With a centre offset of 5 the root is at \<open>(0, 0)\<close> in the left and
  in the right mode; and in the both-direction mode the entry under the root's id is the
  child's, at \<open>(-125, 0)\<close>, when the child has the root's id.
\<close>

theorem calculateLayout_root_position_counterexample:
  "map_option (\<lambda>pos. map_option (\<lambda>p. (p_x p, p_y p)) (pos root_id))
     (calculateLayout exampleCollapsed (exampleOptions (Some DirLeft) (Some 5))) = Some (Some (0, 0))
   \<and> map_option (\<lambda>pos. map_option (\<lambda>p. (p_x p, p_y p)) (pos root_id))
     (calculateLayout exampleCollapsed (exampleOptions (Some DirRight) (Some 5))) = Some (Some (0, 0))
   \<and> map_option (\<lambda>pos. map_option (\<lambda>p. (p_x p, p_y p)) (pos root_id))
     (calculateLayout exampleSameId (exampleOptions (Some DirBoth) (Some 5))) = Some (Some (- 125, 0))"
  by (simp add: exampleCollapsed_def exampleSameId_def layout_eval)

text \<open>
  C2, as amended. For every tree in which no descendant has the root's id and for every
  option set, calculateLayout returns a map whose entry for the root has \<open>y = 0\<close> and
  \<open>x = centerOffset\<close> in the both-direction mode, \<open>x = 0\<close> in the left and right modes.
\<close>

theorem calculateLayout_root_position:
  assumes own: "n_id rootNode \<notin> allIds (n_children rootNode)"
  shows "\<exists>pos p. calculateLayout rootNode options = Some pos
           \<and> pos (n_id rootNode) = Some p \<and> p_y p = 0
           \<and> p_x p = (if orDefault (o_direction options) DirBoth = DirBoth
                      then orDefault (o_centerOffset options) 0 else 0)"
proof -
  let ?dims = "calculateNodeDimensions (getAllNodes rootNode)"
  let ?hs = "orDefault (o_horizontalSpacing options) 140"
  let ?vs = "orDefault (o_verticalSpacing options) 16"
  let ?co = "orDefault (o_centerOffset options) 0"
  let ?dir = "orDefault (o_direction options) DirBoth"
  let ?cs = "n_children rootNode"
  let ?k = "(length ?cs + 1) div 2"
  have dims: "allIds [rootNode] \<subseteq> dom ?dims" by (simp add: calculateNodeDimensions_dom)
  have nv: "n_id rootNode \<notin> visibleIds ?cs" using own visibleIds_subset_allIds by blast
  show ?thesis
  proof (cases "?dir = DirBoth")
    case True
    from dims obtain pos rootDim p2 y1 y2 where
      b: "calculateBothDirectionLayout rootNode Map.empty ?dims ?hs ?vs ?co = Some pos"
         "?dims (n_id rootNode) = Some rootDim"
         "layoutChildren (take ?k ?cs) (n_id rootNode)
            (Map.empty(n_id rootNode \<mapsto> rootPosition rootNode rootDim ?co)) ?dims
            (?co - d_width rootDim / 2 - ?hs * (1 / 2)) (- 1) y1 DirLeft ?hs ?vs = Some p2"
         "layoutChildren (drop ?k ?cs) (n_id rootNode) p2 ?dims
            (?co + d_width rootDim / 2 + ?hs * (1 / 2)) 1 y2 DirRight ?hs ?vs = Some pos"
      by (rule both_effect)
    define p1 where "p1 = Map.empty(n_id rootNode \<mapsto> rootPosition rootNode rootDim ?co)"
    note b3 = b(3) [folded p1_def]
    have sub: "allIds (take ?k ?cs @ drop ?k ?cs) \<subseteq> dom ?dims"
      using dims by (auto simp: allIds_single)
    then have l: "allIds (take ?k ?cs) \<subseteq> dom ?dims" and r: "allIds (drop ?k ?cs) \<subseteq> dom ?dims"
      unfolding allIds_append by simp_all
    have "visibleIds (take ?k ?cs) \<union> visibleIds (drop ?k ?cs) = visibleIds ?cs"
      using visibleIds_append [of "take ?k ?cs" "drop ?k ?cs"] by simp
    then have nl: "n_id rootNode \<notin> visibleIds (take ?k ?cs)"
      and nr: "n_id rootNode \<notin> visibleIds (drop ?k ?cs)" using nv by blast+
    from layout_effect(2) [OF l, of "n_id rootNode" p1
        "?co - d_width rootDim / 2 - ?hs * (1 / 2)" "- 1" y1 DirLeft ?hs ?vs] b3
    have f2: "\<forall>k. k \<notin> visibleIds (take ?k ?cs) \<longrightarrow> p2 k = p1 k" by auto
    from layout_effect(2) [OF r, of "n_id rootNode" p2
        "?co + d_width rootDim / 2 + ?hs * (1 / 2)" 1 y2 DirRight ?hs ?vs] b(4)
    have f3: "\<forall>k. k \<notin> visibleIds (drop ?k ?cs) \<longrightarrow> pos k = p2 k" by auto
    have "pos (n_id rootNode) = p1 (n_id rootNode)" using f2 f3 nl nr by simp
    then have e: "pos (n_id rootNode) = Some (rootPosition rootNode rootDim ?co)"
      unfolding p1_def by simp
    have "calculateLayout rootNode options = Some pos"
      using b(1) True by (simp add: calculateLayout_def Let_def)
    then show ?thesis using e True by (simp add: rootPosition_def)
  next
    case False
    from dims obtain pos rootDim where
      s: "calculateSingleDirectionLayout rootNode Map.empty ?dims ?hs ?vs ?dir = Some pos"
         "?dims (n_id rootNode) = Some rootDim"
         "layoutChildBranch rootNode (Map.empty(n_id rootNode \<mapsto> rootPosition rootNode rootDim 0))
            ?dims 0 0 ?dir ?hs ?vs = Some pos"
      by (rule single_effect)
    define p1 where "p1 = Map.empty(n_id rootNode \<mapsto> rootPosition rootNode rootDim 0)"
    note s3 = s(3) [folded p1_def]
    have nb: "n_id rootNode \<notin> visibleBelow rootNode" using nv by (auto simp: visibleBelow_def)
    from layout_effect(1) [OF dims, of p1 0 0 ?dir ?hs ?vs] s3
    have "\<forall>k. k \<notin> visibleBelow rootNode \<longrightarrow> pos k = p1 k" by auto
    then have e: "pos (n_id rootNode) = Some (rootPosition rootNode rootDim 0)"
      using nb unfolding p1_def by simp
    have "calculateLayout rootNode options = Some pos"
      using s(1) False by (simp add: calculateLayout_def Let_def)
    then show ?thesis using e False by (simp add: rootPosition_def)
  qed
qed

theorem calculateLayout_root_position_witness:
  "n_id exampleNested \<notin> allIds (n_children exampleNested)
   \<and> (\<exists>pos p. calculateLayout exampleNested (exampleOptions (Some DirBoth) (Some 5)) = Some pos
         \<and> pos (n_id exampleNested) = Some p \<and> p_y p = 0 \<and> p_x p = 5)
   \<and> (\<exists>pos p. calculateLayout exampleNested (exampleOptions (Some DirLeft) (Some 5)) = Some pos
         \<and> pos (n_id exampleNested) = Some p \<and> p_y p = 0 \<and> p_x p = 0)"
proof -
  have own: "n_id exampleNested \<notin> allIds (n_children exampleNested)"
    by (simp add: exampleNested_def)
  show ?thesis
    using own calculateLayout_root_position [OF own, of "exampleOptions (Some DirBoth) (Some 5)"]
      calculateLayout_root_position [OF own, of "exampleOptions (Some DirLeft) (Some 5)"]
    by (simp add: exampleOptions_def orDefault_def)
qed

section \<open>Properties of the layout engine: anchor lines\<close>

lemma anchoredToRootI:
  "pos (n_id (fst edge)) = Some pp \<Longrightarrow> pos (n_id (snd edge)) = Some pc
   \<Longrightarrow> alignedTo side (rootAnchorLine side hs pp) pc \<Longrightarrow> anchoredToRoot side hs pos edge"
  unfolding anchoredToRoot_def by simp

text \<open>
  C5 as stated fails for the children of the root in the both-direction mode: with the
  default spacing of 140 the near edges of the two children are at \<open>-100\<close> and \<open>100\<close>,
  the anchor lines of the claim at \<open>-97.2\<close> and \<open>97.2\<close>. It also fails when a child has
  the id of its own child, whose entry then replaces it.
\<close>

theorem calculateLayout_anchor_lines_counterexample:
  "map_option (\<lambda>pos. map_option (nearEdge DirLeft) (pos [97]))
     (calculateLayout exampleTwoChildren (exampleOptions None None)) = Some (Some (- 100))
   \<and> map_option (\<lambda>pos. map_option (anchorLine DirLeft 140 exampleTwoChildren) (pos root_id))
     (calculateLayout exampleTwoChildren (exampleOptions None None)) = Some (Some (- (486 / 5)))
   \<and> map_option (\<lambda>pos. map_option (nearEdge DirRight) (pos [98]))
     (calculateLayout exampleTwoChildren (exampleOptions None None)) = Some (Some 100)
   \<and> map_option (\<lambda>pos. map_option (anchorLine DirRight 140 exampleTwoChildren) (pos root_id))
     (calculateLayout exampleTwoChildren (exampleOptions None None)) = Some (Some (486 / 5))
   \<and> map_option (\<lambda>pos. map_option (nearEdge DirLeft) (pos [120]))
     (calculateLayout exampleSameIdChain (exampleOptions (Some DirLeft) None))
       = Some (Some (- (1122 / 5)))
   \<and> map_option (\<lambda>pos. map_option (anchorLine DirLeft 140 exampleSameIdChain) (pos root_id))
     (calculateLayout exampleSameIdChain (exampleOptions (Some DirLeft) None))
       = Some (Some (- (486 / 5)))"
  by (simp add: exampleTwoChildren_def exampleSameIdChain_def layout_eval nearEdge_def
      anchorLine_def boxMaxX_def boxMinX_def)

text \<open>
  C5, as amended. For every tree with distinct ids and every option set: in the left and
  right modes every pair (parent, child) with an expanded parent on a path of expanded
  ancestors has the child stored at \<open>x = anchor - width / 2\<close> on the left side
  (right-aligned) and at \<open>x = anchor + width / 2\<close> on the right side (left-aligned), the
  anchor being the line \<open>parentX \<plusminus> (parentWidth / 2 + horizontalSpacing \<times> m \<times> 0.6)\<close>, with
  \<open>m\<close> 1 when the parent's level is at least 2 and 0.8 otherwise. In the both-direction
  mode the same holds below each child of the root, on the left for the first
  \<open>ceil(n / 2)\<close> children and on the right for the others, and the children of the root are
  stored in the same way against the lines \<open>rootX - rootWidth / 2 - horizontalSpacing \<times> 0.5\<close>
  and \<open>rootX + rootWidth / 2 + horizontalSpacing \<times> 0.5\<close>. These are the expressions the
  source assigns to \<open>x\<close>; the statement does not subtract the half width again.
\<close>

theorem calculateLayout_anchor_lines:
  assumes dist: "distinctIds [rootNode]"
  shows "\<exists>pos. calculateLayout rootNode options = Some pos
           \<and> (let direction = orDefault (o_direction options) DirBoth;
                   horizontalSpacing = orDefault (o_horizontalSpacing options) 140;
                   children = n_children rootNode;
                   leftCount = (length children + 1) div 2
               in if direction = DirBoth
                  then (\<forall>c \<in> set (take leftCount children).
                          anchoredToRoot DirLeft horizontalSpacing pos (rootNode, c)
                          \<and> (\<forall>edge \<in> set (branchEdges c).
                                anchored DirLeft horizontalSpacing pos edge))
                       \<and> (\<forall>c \<in> set (drop leftCount children).
                          anchoredToRoot DirRight horizontalSpacing pos (rootNode, c)
                          \<and> (\<forall>edge \<in> set (branchEdges c).
                                anchored DirRight horizontalSpacing pos edge))
                  else (\<forall>edge \<in> set (branchEdges rootNode).
                          anchored direction horizontalSpacing pos edge))"
proof -
  let ?dims = "calculateNodeDimensions (getAllNodes rootNode)"
  let ?hs = "orDefault (o_horizontalSpacing options) 140"
  let ?vs = "orDefault (o_verticalSpacing options) 16"
  let ?co = "orDefault (o_centerOffset options) 0"
  let ?dir = "orDefault (o_direction options) DirBoth"
  let ?cs = "n_children rootNode"
  let ?k = "(length ?cs + 1) div 2"
  have dims: "allIds [rootNode] \<subseteq> dom ?dims" by (simp add: calculateNodeDimensions_dom)
  have d1: "n_id rootNode \<notin> allIds ?cs" "distinctIds ?cs"
    using dist distinctIds_single [of rootNode] by simp_all
  show ?thesis
  proof (cases "?dir = DirBoth")
    case True
    from dims obtain pos rootDim p2 y1 y2 where
      b: "calculateBothDirectionLayout rootNode Map.empty ?dims ?hs ?vs ?co = Some pos"
         "?dims (n_id rootNode) = Some rootDim"
         "layoutChildren (take ?k ?cs) (n_id rootNode)
            (Map.empty(n_id rootNode \<mapsto> rootPosition rootNode rootDim ?co)) ?dims
            (?co - d_width rootDim / 2 - ?hs * (1 / 2)) (- 1) y1 DirLeft ?hs ?vs = Some p2"
         "layoutChildren (drop ?k ?cs) (n_id rootNode) p2 ?dims
            (?co + d_width rootDim / 2 + ?hs * (1 / 2)) 1 y2 DirRight ?hs ?vs = Some pos"
      by (rule both_effect)
    define p1 where "p1 = Map.empty(n_id rootNode \<mapsto> rootPosition rootNode rootDim ?co)"
    define rp where "rp = rootPosition rootNode rootDim ?co"
    note b3 = b(3) [folded p1_def]
    have sub: "allIds (take ?k ?cs @ drop ?k ?cs) \<subseteq> dom ?dims"
      using dims by (auto simp: allIds_single)
    then have l: "allIds (take ?k ?cs) \<subseteq> dom ?dims" and r: "allIds (drop ?k ?cs) \<subseteq> dom ?dims"
      unfolding allIds_append by simp_all
    have "distinctIds (take ?k ?cs @ drop ?k ?cs)" using d1(2) by simp
    then have dl: "distinctIds (take ?k ?cs)" and dr: "distinctIds (drop ?k ?cs)"
      and dj: "allIds (take ?k ?cs) \<inter> allIds (drop ?k ?cs) = {}"
      unfolding distinctIds_append by simp_all
    have "allIds (take ?k ?cs) \<union> allIds (drop ?k ?cs) = allIds ?cs"
      using allIds_append [of "take ?k ?cs" "drop ?k ?cs"] by simp
    then have nl: "n_id rootNode \<notin> allIds (take ?k ?cs)"
      and nr: "n_id rootNode \<notin> allIds (drop ?k ?cs)" using d1(1) by blast+
    from layout_effect(2) [OF l, of "n_id rootNode" p1
        "?co - d_width rootDim / 2 - ?hs * (1 / 2)" "- 1" y1 DirLeft ?hs ?vs] b3
    have f2: "\<forall>k. k \<notin> visibleIds (take ?k ?cs) \<longrightarrow> p2 k = p1 k" by auto
    from layout_effect(2) [OF r, of "n_id rootNode" p2
        "?co + d_width rootDim / 2 + ?hs * (1 / 2)" 1 y2 DirRight ?hs ?vs] b(4)
    have f3: "\<forall>k. k \<notin> visibleIds (drop ?k ?cs) \<longrightarrow> pos k = p2 k" by auto
    have keepl: "pos k = p2 k" if "k \<in> allIds (take ?k ?cs)" for k
    proof -
      have "k \<notin> allIds (drop ?k ?cs)" using that dj by blast
      then show ?thesis using f3 visibleIds_subset_allIds by blast
    qed
    have "pos (n_id rootNode) = p1 (n_id rootNode)"
      using f2 f3 nl nr visibleIds_subset_allIds by (metis subsetD)
    then have rootE: "pos (n_id rootNode) = Some rp" unfolding p1_def rp_def by simp
    have la: "rootAnchorLine DirLeft ?hs rp = ?co - d_width rootDim / 2 - ?hs * (1 / 2)"
      and ra: "rootAnchorLine DirRight ?hs rp = ?co + d_width rootDim / 2 + ?hs * (1 / 2)"
      unfolding rp_def by (simp_all add: rootAnchorLine_def rootPosition_def Let_def)
    from layout_anchored_aux(2) [rule_format, OF b3 l dl]
    have lk: "\<forall>c \<in> set (take ?k ?cs). \<exists>pc. p2 (n_id c) = Some pc
                \<and> alignedTo DirLeft (?co - d_width rootDim / 2 - ?hs * (1 / 2)) pc"
      and lb: "\<forall>c \<in> set (take ?k ?cs). \<forall>edge \<in> set (branchEdges c). anchored DirLeft ?hs p2 edge"
      by simp_all
    from layout_anchored_aux(2) [rule_format, OF b(4) r dr]
    have rk: "\<forall>c \<in> set (drop ?k ?cs). \<exists>pc. pos (n_id c) = Some pc
                \<and> alignedTo DirRight (?co + d_width rootDim / 2 + ?hs * (1 / 2)) pc"
      and rb: "\<forall>c \<in> set (drop ?k ?cs). \<forall>edge \<in> set (branchEdges c). anchored DirRight ?hs pos edge"
      by simp_all
    have left: "anchoredToRoot DirLeft ?hs pos (rootNode, c)
                \<and> (\<forall>edge \<in> set (branchEdges c). anchored DirLeft ?hs pos edge)"
      if c: "c \<in> set (take ?k ?cs)" for c
    proof
      have cs: "allIds [c] \<subseteq> allIds (take ?k ?cs)" by (rule allIds_member [OF c])
      from lk c obtain pc where pc: "p2 (n_id c) = Some pc"
        "alignedTo DirLeft (?co - d_width rootDim / 2 - ?hs * (1 / 2)) pc" by blast
      have "n_id c \<in> allIds [c]" by (simp add: allIds_single)
      then have "pos (n_id c) = Some pc" using keepl cs pc(1) by auto
      then have pe: "pos (n_id c) = Some pc" .
      have al: "alignedTo DirLeft (rootAnchorLine DirLeft ?hs rp) pc"
        unfolding la by (rule pc(2))
      show "anchoredToRoot DirLeft ?hs pos (rootNode, c)"
        by (rule anchoredToRootI [of pos _ rp pc]) (simp_all add: rootE pe al)
      show "\<forall>edge \<in> set (branchEdges c). anchored DirLeft ?hs pos edge"
      proof
        fix edge assume e: "edge \<in> set (branchEdges c)"
        have "pos (n_id (fst edge)) = p2 (n_id (fst edge))"
          "pos (n_id (snd edge)) = p2 (n_id (snd edge))"
          using branchEdges_ids [OF e] cs keepl by auto
        then show "anchored DirLeft ?hs pos edge" using anchored_cong lb c e by blast
      qed
    qed
    have right: "anchoredToRoot DirRight ?hs pos (rootNode, c)
                \<and> (\<forall>edge \<in> set (branchEdges c). anchored DirRight ?hs pos edge)"
      if c: "c \<in> set (drop ?k ?cs)" for c
    proof
      from rk c obtain pc where pc: "pos (n_id c) = Some pc"
        "alignedTo DirRight (?co + d_width rootDim / 2 + ?hs * (1 / 2)) pc" by blast
      have al: "alignedTo DirRight (rootAnchorLine DirRight ?hs rp) pc"
        unfolding ra by (rule pc(2))
      show "anchoredToRoot DirRight ?hs pos (rootNode, c)"
        by (rule anchoredToRootI [of pos _ rp pc]) (simp_all add: rootE pc(1) al)
      show "\<forall>edge \<in> set (branchEdges c). anchored DirRight ?hs pos edge"
        using rb c by blast
    qed
    have "calculateLayout rootNode options = Some pos"
      using b(1) True by (simp add: calculateLayout_def Let_def)
    then show ?thesis using True left right by (simp add: Let_def)
  next
    case False
    from dims obtain pos rootDim where
      s: "calculateSingleDirectionLayout rootNode Map.empty ?dims ?hs ?vs ?dir = Some pos"
         "?dims (n_id rootNode) = Some rootDim"
         "layoutChildBranch rootNode (Map.empty(n_id rootNode \<mapsto> rootPosition rootNode rootDim 0))
            ?dims 0 0 ?dir ?hs ?vs = Some pos"
      by (rule single_effect)
    define p1 where "p1 = Map.empty(n_id rootNode \<mapsto> rootPosition rootNode rootDim 0)"
    note s3 = s(3) [folded p1_def]
    have e1: "p1 (n_id rootNode) = Some (rootPosition rootNode rootDim 0)"
      unfolding p1_def by simp
    have ex: "p_x (rootPosition rootNode rootDim 0) = 0"
      and ew: "p_width (rootPosition rootNode rootDim 0) = d_width rootDim"
      by (simp_all add: rootPosition_def)
    from layout_anchored_aux(1) [rule_format, OF s3 dims dist e1 ex s(2) ew]
    have "\<forall>edge \<in> set (branchEdges rootNode). anchored ?dir ?hs pos edge" by blast
    moreover have "calculateLayout rootNode options = Some pos"
      using s(1) False by (simp add: calculateLayout_def Let_def)
    ultimately show ?thesis using False by (simp add: Let_def)
  qed
qed

theorem calculateLayout_anchor_lines_witness:
  "distinctIds [exampleNested] \<and> distinctIds [exampleTwoChildren]
   \<and> (\<exists>pos. calculateLayout exampleNested (exampleOptions (Some DirLeft) None) = Some pos
         \<and> anchored DirLeft 140 pos (exampleNested, hd (n_children exampleNested))
         \<and> anchored DirLeft 140 pos
               (hd (n_children exampleNested), INodeData [99] [] 2 [] (Some False)))
   \<and> (\<exists>pos. calculateLayout exampleTwoChildren (exampleOptions None None) = Some pos
         \<and> anchoredToRoot DirLeft 140 pos (exampleTwoChildren, INodeData [97] [] 1 [] (Some False))
         \<and> anchoredToRoot DirRight 140 pos (exampleTwoChildren, INodeData [98] [] 1 [] (Some False)))"
proof -
  have d1: "distinctIds [exampleNested]"
    by (simp add: distinctIds_def exampleNested_def)
  have d2: "distinctIds [exampleTwoChildren]"
    by (simp add: distinctIds_def exampleTwoChildren_def root_id_def)
  from calculateLayout_anchor_lines [OF d1, of "exampleOptions (Some DirLeft) None"]
  have a: "\<exists>pos. calculateLayout exampleNested (exampleOptions (Some DirLeft) None) = Some pos
         \<and> anchored DirLeft 140 pos (exampleNested, hd (n_children exampleNested))
         \<and> anchored DirLeft 140 pos
               (hd (n_children exampleNested), INodeData [99] [] 2 [] (Some False))"
    by (simp add: exampleOptions_def orDefault_def Let_def)
       (auto simp: exampleNested_def truthy_def)
  from calculateLayout_anchor_lines [OF d2, of "exampleOptions None None"]
  have b: "\<exists>pos. calculateLayout exampleTwoChildren (exampleOptions None None) = Some pos
         \<and> anchoredToRoot DirLeft 140 pos (exampleTwoChildren, INodeData [97] [] 1 [] (Some False))
         \<and> anchoredToRoot DirRight 140 pos (exampleTwoChildren, INodeData [98] [] 1 [] (Some False))"
    by (simp add: exampleOptions_def orDefault_def Let_def)
       (auto simp: exampleTwoChildren_def truthy_def)
  show ?thesis using d1 d2 a b by blast
qed

section \<open>The id of the root, in the parser and in the edge path generator\<close>

text \<open>
  C10. The curve starts at \<open>from.y\<close> when \<open>from.id\<close> is \<^verbatim>\<open>'root'\<close> and at
  \<open>from.y + from.height / 2\<close> otherwise. parseMarkdown gives the id \<^verbatim>\<open>'root'\<close> to the
  root it returns and the id \<^verbatim>\<open>'node-k'\<close> to the object with reference \<open>k + 1\<close>, which
  is never \<^verbatim>\<open>'root'\<close>; objects with larger \<open>k\<close> are created by later lines. For a tree
  whose root has another id, the root's entry in the map of calculateLayout is anchored
  like any other node: the curve starts at \<open>y + height / 2\<close>.
\<close>

theorem root_id_anchoring:
  "(\<forall>fromP toP. l_fromY (generateLinkPath fromP toP)
        = (if p_id fromP = root_id then p_y fromP else p_y fromP + p_height fromP / 2))
   \<and> (\<forall>markdown. \<exists>fin. parseMarkdownRun markdown = Some fin
         \<and> map_option n_id (parseMarkdown markdown) = Some root_id
         \<and> h_id (heap fin ! 0) = root_id
         \<and> (\<forall>k. Suc k < length (heap fin) \<longrightarrow>
               h_id (heap fin ! Suc k) = node_prefix @ decimal k
               \<and> h_id (heap fin ! Suc k) \<noteq> root_id)
         \<and> (\<forall>ka kb na nb. createdAt markdown na (Suc ka) \<and> createdAt markdown nb (Suc kb)
               \<and> ka < kb \<longrightarrow> na < nb))
   \<and> (\<forall>rootNode options. n_id rootNode \<noteq> root_id \<longrightarrow>
         (\<exists>pos fromP. calculateLayout rootNode options = Some pos
            \<and> pos (n_id rootNode) = Some fromP
            \<and> (\<forall>toP. l_fromY (generateLinkPath fromP toP) = p_y fromP + p_height fromP / 2)))"
proof (intro conjI allI impI)
  fix fromP toP :: NodePosition
  show "l_fromY (generateLinkPath fromP toP)
        = (if p_id fromP = root_id then p_y fromP else p_y fromP + p_height fromP / 2)"
    by (simp add: generateLinkPath_def Let_def)
next
  fix markdown
  from parseMarkdownRun_returns [of markdown] obtain fin where
    f: "parseMarkdownRun markdown = Some fin" "parserInv fin" by blast
  have ids: "idsInv fin" using f(2) unfolding parserInv_def by simp
  have r: "h_id (heap fin ! 0) = root_id" using ids unfolding idsInv_def by simp
  have t: "map_option n_id (parseMarkdown markdown) = Some root_id"
    using f(1) r by (simp add: parseMarkdown_def treeOf_root_fields)
  have n: "\<forall>k. Suc k < length (heap fin) \<longrightarrow>
               h_id (heap fin ! Suc k) = node_prefix @ decimal k
               \<and> h_id (heap fin ! Suc k) \<noteq> root_id"
    using ids node_id_not_root unfolding idsInv_def by simp
  have o: "\<forall>ka kb na nb. createdAt markdown na (Suc ka) \<and> createdAt markdown nb (Suc kb)
               \<and> ka < kb \<longrightarrow> na < nb"
    using createdAt_order by (meson Suc_less_eq)
  show "\<exists>fin. parseMarkdownRun markdown = Some fin
         \<and> map_option n_id (parseMarkdown markdown) = Some root_id
         \<and> h_id (heap fin ! 0) = root_id
         \<and> (\<forall>k. Suc k < length (heap fin) \<longrightarrow>
               h_id (heap fin ! Suc k) = node_prefix @ decimal k
               \<and> h_id (heap fin ! Suc k) \<noteq> root_id)
         \<and> (\<forall>ka kb na nb. createdAt markdown na (Suc ka) \<and> createdAt markdown nb (Suc kb)
               \<and> ka < kb \<longrightarrow> na < nb)"
    using f(1) t r n o by blast
next
  fix rootNode :: INodeData and options :: LayoutOptions
  assume nr: "n_id rootNode \<noteq> root_id"
  from calculateLayout_dom [of rootNode options] obtain pos where
    p: "calculateLayout rootNode options = Some pos" "keyed pos"
       "dom pos = (if orDefault (o_direction options) DirBoth = DirBoth
                  then insert (n_id rootNode) (visibleIds (n_children rootNode))
                  else visibleIds [rootNode])" by blast
  have "n_id rootNode \<in> dom pos" unfolding p(3) by (simp add: visibleIds_single)
  then obtain fromP where fp: "pos (n_id rootNode) = Some fromP" by blast
  then have "p_id fromP = n_id rootNode" using p(2) unfolding keyed_def by blast
  then have "\<forall>toP. l_fromY (generateLinkPath fromP toP) = p_y fromP + p_height fromP / 2"
    using nr by (simp add: generateLinkPath_def Let_def)
  then show "\<exists>pos fromP. calculateLayout rootNode options = Some pos
            \<and> pos (n_id rootNode) = Some fromP
            \<and> (\<forall>toP. l_fromY (generateLinkPath fromP toP) = p_y fromP + p_height fromP / 2)"
    using p(1) fp by blast
qed

theorem root_id_anchoring_witness:
  "n_id exampleNested \<noteq> root_id
   \<and> (\<exists>pos fromP. calculateLayout exampleNested (exampleOptions None None) = Some pos
         \<and> pos (n_id exampleNested) = Some fromP \<and> p_y fromP = 0 \<and> p_height fromP = 52
         \<and> l_fromY (generateLinkPath fromP (examplePos [97] (- 130) 0 60 36)) = 26)
   \<and> (\<exists>fin. parseMarkdownRun exampleHeadings = Some fin \<and> length (heap fin) = 5
         \<and> h_id (heap fin ! 0) = root_id \<and> h_id (heap fin ! 1) = node_prefix @ [48]
         \<and> h_id (heap fin ! 4) = node_prefix @ [51])"
proof -
  have nr: "n_id exampleNested \<noteq> root_id" by (simp add: exampleNested_def root_id_def)
  from root_id_anchoring nr obtain pos fromP where
    p: "calculateLayout exampleNested (exampleOptions None None) = Some pos"
       "pos (n_id exampleNested) = Some fromP"
       "\<forall>toP. l_fromY (generateLinkPath fromP toP) = p_y fromP + p_height fromP / 2"
    by blast
  have v: "p_y fromP = 0 \<and> p_height fromP = 52"
    using p(1) p(2) by (auto simp: exampleNested_def layout_eval split: if_splits)
  then have l: "l_fromY (generateLinkPath fromP (examplePos [97] (- 130) 0 60 36)) = 26"
    using p(3) by simp
  from root_id_anchoring obtain fin where
    f: "parseMarkdownRun exampleHeadings = Some fin" "h_id (heap fin ! 0) = root_id"
       "\<forall>k. Suc k < length (heap fin) \<longrightarrow> h_id (heap fin ! Suc k) = node_prefix @ decimal k"
    by blast
  have len: "length (heap fin) = 5" using f(1) by (auto simp: exampleHeadings_def parser_eval)
  have "Suc 0 < length (heap fin)" "Suc 3 < length (heap fin)" using len by simp_all
  then have "h_id (heap fin ! Suc 0) = node_prefix @ decimal 0"
    "h_id (heap fin ! Suc 3) = node_prefix @ decimal 3" using f(3) by blast+
  then have i: "h_id (heap fin ! 1) = node_prefix @ [48]" "h_id (heap fin ! 4) = node_prefix @ [51]"
    by (simp_all add: decimal.simps eval_nat_numeral)
  show ?thesis using nr p(1) p(2) v l f(1) f(2) len i by blast
qed

end
